theory Spec2Isabelle
  imports Complex_Main "HOL-Library.Word"
begin

unbundle bit_operations_syntax

section \<open>Data model of package goping (goping.go)\<close>

text \<open>
  Go's \<open>error\<close> values are modelled by their message: \<open>None\<close> is \<open>nil\<close>,
  \<open>Some m\<close> is \<open>errors.New(m)\<close>. A \<open>time.Duration\<close> and a \<open>time.Time\<close> are
  integers counting nanoseconds.
\<close>

type_synonym error = "string option"
type_synonym duration = int
type_synonym time = int

record config =
  Count :: int
  Interval :: duration
  Timeout :: duration
  TOS :: int
  TTL :: int
  PacketSize :: int

text \<open>
  \<open>Request.Sent\<close> is a \<open>float64\<close> that only ever holds a count: it starts at 0 and
  grows by \<open>Sent++\<close>. It is modelled as a natural number; \<open>float64_incr\<close> is the float
  increment on such counts, which is exact below \<open>2 ^ 53\<close> and leaves \<open>2 ^ 53\<close>
  unchanged (round to even).
\<close>

record request =
  ReqId :: "64 word"
  Host :: string
  Config :: config
  UserData :: "(string \<times> string) list"
  Sent :: nat

definition float64_incr :: "nat \<Rightarrow> nat" where
  "float64_incr s = (if s < 2 ^ 53 then s + 1 else s)"

text \<open>
  \<open>icmp.Message.Type\<close> is an interface value: \<open>None\<close> is the nil interface of a zero
  message, \<open>Some n\<close> is \<open>ipv4.ICMPType(n)\<close>. The named constants are those of
  golang.org/x/net/ipv4 (the IANA numbers).
\<close>

record icmp_echo =
  EchoID :: int
  EchoSeq :: int
  EchoData :: "nat list"

record icmp_message =
  Type :: "int option"
  Code :: int
  Checksum :: int
  Body :: "icmp_echo option"

definition ICMPTypeEchoReply :: int where "ICMPTypeEchoReply = 0"
definition ICMPTypeDestinationUnreachable :: int where "ICMPTypeDestinationUnreachable = 3"
definition ICMPTypeRedirect :: int where "ICMPTypeRedirect = 5"
definition ICMPTypeEcho :: int where "ICMPTypeEcho = 8"
definition ICMPTypeTimeExceeded :: int where "ICMPTypeTimeExceeded = 11"
definition ICMPTypeParameterProblem :: int where "ICMPTypeParameterProblem = 12"

lemmas ICMPType_defs =
  ICMPTypeEchoReply_def ICMPTypeDestinationUnreachable_def ICMPTypeRedirect_def
  ICMPTypeEcho_def ICMPTypeTimeExceeded_def ICMPTypeParameterProblem_def

text \<open>A \<open>float64\<close> round-trip time: not-a-number, or a number of milliseconds.\<close>

datatype float64 = NaN | Float real

record rawResponse =
  RTT :: float64
  From :: "nat list"
  ICMPMessage :: icmp_message

record response =
  Request :: request
  Seq :: int
  Err :: error
  RawResponse :: rawResponse

text \<open>The zero values Go gives to the fields a composite literal leaves out.\<close>

definition zero_message :: icmp_message where
  "zero_message = \<lparr>Type = None, Code = 0, Checksum = 0, Body = None\<rparr>"

definition nan_raw :: rawResponse where
  "nan_raw = \<lparr>RTT = NaN, From = [], ICMPMessage = zero_message\<rparr>"

section \<open>One attempt of the request coordinator (goping.go, Start, lines 133-169)\<close>

text \<open>
  The \<open>select\<close> of an attempt takes exactly one of its two branches. Which one is the
  environment's choice: \<open>TimeoutFired\<close> when the timer channel is received from,
  \<open>FutureFired r\<close> when \<open>r\<close> is received from the pinger's future.
\<close>

datatype race = TimeoutFired | FutureFired rawResponse

text \<open>The \<open>switch\<close> on the reply's message type; the result is the new \<open>resp.Err\<close>.\<close>

definition classify :: "int option \<Rightarrow> error" where
  "classify t =
     (if t = Some ICMPTypeEcho then None
      else if t = Some ICMPTypeEchoReply then None
      else if t = Some ICMPTypeDestinationUnreachable then Some ''Destination Unreachable''
      else if t = Some ICMPTypeTimeExceeded then Some ''Time Exceeded''
      else if t = Some ICMPTypeParameterProblem then Some ''Parameter Problem''
      else if t = Some ICMPTypeRedirect then Some ''Redirect''
      else Some ''uncategorized ICMP RAW Response Type'')"

text \<open>
  \<open>build_response recv seq err rc\<close> is the Response the attempt goroutine sends to
  \<open>out\<close>: \<open>recv\<close>, \<open>seq\<close> and \<open>err\<close> are what \<open>Ping\<close> was called with and returned;
  the race \<open>rc\<close> is consulted only when \<open>err\<close> is nil.
\<close>

definition build_response :: "request \<Rightarrow> int \<Rightarrow> error \<Rightarrow> race \<Rightarrow> response" where
  "build_response recv seq err rc =
     (let resp = \<lparr>Request = recv, Seq = seq, Err = err, RawResponse = nan_raw\<rparr> in
      if Err resp = None then
        (case rc of
           TimeoutFired \<Rightarrow> resp\<lparr>Err := Some ''Timeout''\<rparr>
         | FutureFired r \<Rightarrow>
             resp\<lparr>RawResponse := r, Err := classify (Type (ICMPMessage r))\<rparr>)
      else resp)"

text \<open>
  How long the attempt goroutine waits in its \<open>select\<close>, and what it receives there.
  The reply, if one is ever delivered, is ready \<open>d\<close> nanoseconds after the \<open>select\<close>
  started; the timer is ready after \<open>Timeout\<close> (at once when that is not positive).
  When both are ready at the same instant Go picks either branch: \<open>coin\<close> decides.
  A failed send does not reach the \<open>select\<close>: it waits for nothing.
\<close>

definition select_race :: "duration \<Rightarrow> (duration \<times> rawResponse) option \<Rightarrow> bool \<Rightarrow> race" where
  "select_race tmo arrival coin =
     (case arrival of
        None \<Rightarrow> TimeoutFired
      | Some (d, r) \<Rightarrow>
          if d < max tmo 0 then FutureFired r
          else if max tmo 0 < d then TimeoutFired
          else if coin then FutureFired r else TimeoutFired)"

definition attempt_wait :: "request \<Rightarrow> error \<Rightarrow> (duration \<times> rawResponse) option \<Rightarrow> duration" where
  "attempt_wait recv err arrival =
     (if err = None then
        (case arrival of
           None \<Rightarrow> max (Timeout (Config recv)) 0
         | Some (d, r) \<Rightarrow> min d (max (Timeout (Config recv)) 0))
      else 0)"

definition attempt :: "request \<Rightarrow> int \<Rightarrow> error \<Rightarrow> (duration \<times> rawResponse) option \<Rightarrow> bool \<Rightarrow> response" where
  "attempt recv seq err arrival coin =
     build_response recv seq err (select_race (Timeout (Config recv)) arrival coin)"

section \<open>The request coordinator (goping.go, NewRequest and Start)\<close>

record goping =
  idGen :: "64 word"
  cfg :: config

definition NewRequest :: "goping \<Rightarrow> string \<Rightarrow> (string \<times> string) list \<Rightarrow> goping \<times> request" where
  "NewRequest g hostname userData =
     (let g' = g\<lparr>idGen := idGen g + 1\<rparr>
      in (g', \<lparr>ReqId = idGen g', Host = hostname, Config = cfg g', UserData = userData,
               Sent = 0\<rparr>))"

text \<open>
  The state of everything \<open>Start\<close> sets going: whether the loop still reads from \<open>in\<close>
  (its variable is not yet nil), whether the goroutine sending on \<open>doneIn\<close> is waiting
  to be received from, the counter of the wait group, the goroutines blocked in
  \<open>pin <- recv\<close> with their requests, the attempt goroutines that have not sent their
  Response yet (with what \<open>Ping\<close> returned), the Responses received from \<open>out\<close> so far,
  whether \<open>out\<close> is closed, whether the closing goroutine is in \<open>wg.Wait\<close>, whether it
  is waiting to send on \<open>done\<close>, and whether the loop has returned.
\<close>

record cstate =
  in_open :: bool
  doneIn_pending :: bool
  wg :: int
  pin_senders :: "request list"
  attempts :: "(request \<times> int \<times> error) list"
  out :: "response list"
  out_closed :: bool
  waiting :: bool
  done_pending :: bool
  returned :: bool

definition cinit :: cstate where
  "cinit = \<lparr>in_open = True, doneIn_pending = False, wg = 0, pin_senders = [], attempts = [],
            out = [], out_closed = False, waiting = False, done_pending = False,
            returned = False\<rparr>"

text \<open>
  What can happen next. \<open>Submit r\<close>: the caller sends \<open>r\<close> into the sink and the loop
  receives it. \<open>CloseIn\<close>: the caller closes the sink and the loop notices.
  \<open>Dispatch i seq err\<close>: the loop receives from the \<open>i\<close>-th blocked sender on \<open>pin\<close>,
  and \<open>Ping\<close> returns \<open>seq\<close> and \<open>err\<close>. \<open>Finish j arrival coin\<close>: the \<open>j\<close>-th attempt
  goroutine gets through its \<open>select\<close> (see \<open>attempt\<close>), its Response is taken from
  \<open>out\<close>, and it either retires the request or waits out the interval and blocks on
  \<open>pin\<close>. \<open>DoneIn\<close>, \<open>CloseOut\<close>, \<open>Done\<close>: the shutdown, step by step.
\<close>

datatype cevent =
    Submit request
  | CloseIn
  | Dispatch nat int error
  | Finish nat "(duration \<times> rawResponse) option" bool
  | DoneIn
  | CloseOut
  | Done

definition remove_nth :: "nat \<Rightarrow> 'a list \<Rightarrow> 'a list" where
  "remove_nth i xs = take i xs @ drop (Suc i) xs"

text \<open>
  \<open>cstep e s\<close> is the state after \<open>e\<close>, or \<open>None\<close> when \<open>e\<close> cannot happen in \<open>s\<close>: the
  goroutine it belongs to is not there or is blocked. (A send on the closed \<open>out\<close>
  would panic; \<open>attempts_none_when_closed\<close> shows that no attempt is left by then.)
\<close>

fun cstep :: "cevent \<Rightarrow> cstate \<Rightarrow> cstate option" where
  "cstep (Submit recv) s =
     (if in_open s \<and> \<not> returned s then
        (let s = s\<lparr>wg := wg s + 1\<rparr>
         in if Count (Config recv) = 0 then Some (s\<lparr>wg := wg s - 1\<rparr>)
            else Some (s\<lparr>pin_senders := pin_senders s @ [recv]\<rparr>))
      else None)"
| "cstep CloseIn s =
     (if in_open s \<and> \<not> returned s
      then Some (s\<lparr>in_open := False, doneIn_pending := True\<rparr>)
      else None)"
| "cstep (Dispatch i seq err) s =
     (if i < length (pin_senders s) \<and> \<not> returned s then
        (let recv = pin_senders s ! i;
             recv = recv\<lparr>Sent := float64_incr (Sent recv)\<rparr>
         in Some (s\<lparr>pin_senders := remove_nth i (pin_senders s),
                    attempts := attempts s @ [(recv, seq, err)]\<rparr>))
      else None)"
| "cstep (Finish j arrival coin) s =
     (if j < length (attempts s) \<and> \<not> out_closed s then
        (case attempts s ! j of (recv, seq, err) \<Rightarrow>
           (let resp = attempt recv seq err arrival coin;
                s = s\<lparr>attempts := remove_nth j (attempts s), out := out s @ [resp]\<rparr>
            in if Count (Config recv) \<ge> 0 \<and> int (Sent recv) \<ge> Count (Config recv)
               then Some (s\<lparr>wg := wg s - 1\<rparr>)
               else Some (s\<lparr>pin_senders := pin_senders s @ [recv]\<rparr>)))
      else None)"
| "cstep DoneIn s =
     (if doneIn_pending s \<and> \<not> returned s
      then Some (s\<lparr>doneIn_pending := False, waiting := True\<rparr>)
      else None)"
| "cstep CloseOut s =
     (if waiting s \<and> wg s = 0
      then Some (s\<lparr>waiting := False, out_closed := True, done_pending := True\<rparr>)
      else None)"
| "cstep Done s =
     (if done_pending s \<and> \<not> returned s
      then Some (s\<lparr>done_pending := False, returned := True\<rparr>)
      else None)"

fun crun :: "cevent list \<Rightarrow> cstate \<Rightarrow> cstate option" where
  "crun [] s = Some s"
| "crun (e # es) s = (case cstep e s of None \<Rightarrow> None | Some s' \<Rightarrow> crun es s')"

text \<open>
  The schedule in which the attempts of the one request waiting on \<open>pin\<close> are
  dispatched and finished one after the other; \<open>envs\<close> gives, for each attempt, what
  \<open>Ping\<close> returns and how its \<open>select\<close> goes.
\<close>

fun solo :: "(int \<times> error \<times> (duration \<times> rawResponse) option \<times> bool) list \<Rightarrow> cevent list" where
  "solo [] = []"
| "solo ((seq, err, arrival, coin) # envs) =
     Dispatch 0 seq err # Finish 0 arrival coin # solo envs"

text \<open>
  A job is a request without its sent counter. \<open>responses_for r\<close> are the Responses of
  the job of \<open>r\<close>; \<open>outstanding r s\<close> are the requests of that job that are waiting to be
  dispatched or are in an attempt; \<open>submissions r evs\<close> counts how often the job was
  submitted.
\<close>

definition job :: "request \<Rightarrow> request" where
  "job r = r\<lparr>Sent := 0\<rparr>"

definition responses_for :: "request \<Rightarrow> response list \<Rightarrow> response list" where
  "responses_for r = filter (\<lambda>resp. job (Request resp) = job r)"

definition outstanding :: "request \<Rightarrow> cstate \<Rightarrow> request list" where
  "outstanding r s =
     filter (\<lambda>r'. job r' = job r) (pin_senders s @ map fst (attempts s))"

fun submitted :: "cevent list \<Rightarrow> request list" where
  "submitted [] = []"
| "submitted (Submit r # es) = r # submitted es"
| "submitted (e # es) = submitted es"

definition submissions :: "request \<Rightarrow> cevent list \<Rightarrow> nat" where
  "submissions r evs = length (filter (\<lambda>r'. job r' = job r) (submitted evs))"

section \<open>The transport of package ggping: coordinator, sendMessage, runListener\<close>

text \<open>
  The structs \<open>Pong\<close>, \<open>Ping\<close> and \<open>rawIcmp\<close>. Field names that are already taken by
  the records above carry a suffix. Go's \<open>int\<close> is the 64-bit machine integer, so the
  sequence counter and the keys of the ping map are \<open>64 word\<close>. \<open>EchoChannel\<close> records
  whether the channel is non-nil. The field \<open>pongchan\<close> is not a field of the model: the
  channel made for a ping is identified with the ping whose goroutine receives from it.
\<close>

record pong =
  Rtt :: real
  Err_pong :: error

record ping =
  To :: string
  Timeout_ping :: nat
  EchoMap :: "(string \<times> string) list"
  When :: time
  Seq_ping :: "64 word"
  Pong :: pong
  EchoChannel :: bool

record rawIcmp =
  when_ri :: time
  size_ri :: nat
  bytes_ri :: "nat list"
  err_ri :: error

text \<open>
  What the operating system and the codec answer during one call of \<open>sendMessage\<close>:
  whether \<open>net.ResolveIPAddr\<close>, \<open>Marshal\<close> and \<open>WriteTo\<close> succeed, and the clock.
\<close>

record send_env =
  resolves :: bool
  marshals :: bool
  now :: time
  writes :: bool

text \<open>
  What the loop does, in the order in which it does it: an echo request written to the
  socket, the channel of a ping stored in the ping map under a number, a raw capture
  sent into the channel of a waiting ping (followed by the close of that channel), a
  ping handed back on its \<open>EchoChannel\<close>, a line printed or logged.
\<close>

datatype action =
    Wire icmp_message
  | Registered "64 word"
  | Deliver ping rawIcmp
  | Echo ping
  | Print string

definition millisecond :: real where
  "millisecond = 1000000"

definition echo_request :: "int \<Rightarrow> ping \<Rightarrow> icmp_message" where
  "echo_request pid pg =
     \<lparr>Type = Some ICMPTypeEcho, Code = 0, Checksum = 0,
      Body = Some \<lparr>EchoID = pid AND 65535, EchoSeq = sint (Seq_ping pg),
                    EchoData = map of_char ''HELLO-R-U-THERE''\<rparr>\<rparr>"

text \<open>
  \<open>sendMessage\<close> returns the ping (it sets \<open>When\<close> just before the write), what it put
  on the wire, and its error. It has no access to the ping map.
\<close>

definition sendMessage :: "int \<Rightarrow> ping \<Rightarrow> send_env \<Rightarrow> ping \<times> action list \<times> error" where
  "sendMessage pid pg env =
     (if \<not> resolves env then (pg, [], Some (''Could not resolve hostname: '' @ To pg))
      else if \<not> marshals env then (pg, [], Some ''Could not Marshall the icmp message'')
      else
        let pg' = pg\<lparr>When := now env\<rparr> in
        if \<not> writes env then (pg', [], Some ''Could not send message through network'')
        else (pg', [Wire (echo_request pid pg')], None))"

text \<open>
  The goroutine started for a ping that was sent: it receives the raw capture from the
  ping's channel, fills in \<open>Pong\<close> and hands the ping back. Its timeout case is commented
  out in the source, so it has no other branch.
\<close>

definition waiter :: "ping \<Rightarrow> rawIcmp \<Rightarrow> action list" where
  "waiter pg ri =
     (let pg' = pg\<lparr>Pong := \<lparr>Rtt = real_of_int (When pg - when_ri ri) / millisecond,
                              Err_pong = None\<rparr>\<rparr>
      in if EchoChannel pg' then [Echo pg'] else [])"

text \<open>The local state of \<open>coordinator\<close>: the sequence counter and the ping map.\<close>

record tstate =
  seq_st :: "64 word"
  pingmap :: "64 word \<rightharpoonup> ping"

definition tinit :: tstate where
  "tinit = \<lparr>seq_st = 0, pingmap = Map.empty\<rparr>"

text \<open>
  One iteration of the \<open>select\<close> loop: a ping received from \<open>ping\<close>, with the
  environment of its send, or a raw capture received from \<open>pong\<close>, with what
  \<open>icmp.ParseMessage\<close> makes of its bytes (\<open>None\<close> for a parse error).
\<close>

datatype event =
    PingEv ping send_env
  | PongEv rawIcmp "icmp_message option"

text \<open>
  The three parts of the ping case, in the order of the source: the counter is
  incremented and assigned (lines 91-92), the message is sent (line 95), and after a
  successful send the channel is registered (line 113).
\<close>

definition assign_seq :: "tstate \<Rightarrow> ping \<Rightarrow> tstate \<times> ping" where
  "assign_seq st pg = (let st' = st\<lparr>seq_st := seq_st st + 1\<rparr> in (st', pg\<lparr>Seq_ping := seq_st st'\<rparr>))"

definition register :: "tstate \<Rightarrow> ping \<Rightarrow> tstate" where
  "register st pg = st\<lparr>pingmap := (pingmap st)(seq_st st \<mapsto> pg)\<rparr>"

definition ping_case :: "int \<Rightarrow> ping \<Rightarrow> send_env \<Rightarrow> tstate \<Rightarrow> tstate \<times> action list" where
  "ping_case pid pg0 env st0 =
     (let (st, pg) = assign_seq st0 pg0;
          (pg, wire, err) = sendMessage pid pg env
      in if err \<noteq> None then
           (let pg = pg\<lparr>Pong := \<lparr>Rtt = 0, Err_pong = err\<rparr>\<rparr>
            in (st, wire @ (if EchoChannel pg then [Echo pg]
                            else [Print ''Could not send ping''])))
         else (register st pg, wire @ [Registered (seq_st st)]))"

text \<open>
  The pong case. The result is \<open>None\<close> when the type assertion on the body panics. The
  lookup, the send, the close and the delete all use the loop's counter \<open>seq\<close> (the field \<open>seq_st\<close>).
\<close>

definition pong_case :: "int \<Rightarrow> rawIcmp \<Rightarrow> icmp_message option \<Rightarrow> tstate
    \<Rightarrow> (tstate \<times> action list) option" where
  "pong_case pid ri parsed st =
     (case parsed of
        None \<Rightarrow> Some (st, [Print ''Could not parse message''])
      | Some rm \<Rightarrow>
          if Type rm \<noteq> Some ICMPTypeEchoReply then Some (st, [])
          else
            (case Body rm of
               None \<Rightarrow> None
             | Some body \<Rightarrow>
                 if EchoID body \<noteq> pid
                 then Some (st, [Print ''Ignoring packet from external process''])
                 else
                   (case pingmap st (seq_st st) of
                      None \<Rightarrow> Some (st, [])
                    | Some w \<Rightarrow>
                        Some (st\<lparr>pingmap := (pingmap st)(seq_st st := None)\<rparr>,
                              Deliver w ri # waiter w ri))))"

fun step :: "int \<Rightarrow> event \<Rightarrow> tstate \<Rightarrow> (tstate \<times> action list) option" where
  "step pid (PingEv pg env) st = Some (ping_case pid pg env st)"
| "step pid (PongEv ri parsed) st = pong_case pid ri parsed st"

fun run :: "int \<Rightarrow> event list \<Rightarrow> tstate \<Rightarrow> (tstate \<times> action list) option" where
  "run pid [] st = Some (st, [])"
| "run pid (e # es) st =
     (case step pid e st of
        None \<Rightarrow> None
      | Some (st', acts) \<Rightarrow>
          (case run pid es st' of
             None \<Rightarrow> None
           | Some (st'', acts') \<Rightarrow> Some (st'', acts @ acts')))"

text \<open>Reading a run: its final state, its actions, and the actions of one kind.\<close>

definition state_of :: "(tstate \<times> action list) option \<Rightarrow> tstate" where
  "state_of res = (case res of None \<Rightarrow> tinit | Some (st, acts) \<Rightarrow> st)"

definition actions_of :: "(tstate \<times> action list) option \<Rightarrow> action list" where
  "actions_of res = (case res of None \<Rightarrow> [] | Some (st, acts) \<Rightarrow> acts)"

fun echoes :: "action list \<Rightarrow> ping list" where
  "echoes [] = []"
| "echoes (Echo pg # acts) = pg # echoes acts"
| "echoes (a # acts) = echoes acts"

fun deliveries :: "action list \<Rightarrow> ping list" where
  "deliveries [] = []"
| "deliveries (Deliver w ri # acts) = w # deliveries acts"
| "deliveries (a # acts) = deliveries acts"



fun pings :: "event list \<Rightarrow> nat" where
  "pings [] = 0"
| "pings (PingEv pg env # es) = Suc (pings es)"
| "pings (e # es) = pings es"

text \<open>
  Invariants of the loop. In every entry of the ping map the ping carries the key as its
  sequence number; and while the counter has not wrapped, every key is a number the
  counter has already passed.
\<close>

definition keyinv :: "tstate \<Rightarrow> bool" where
  "keyinv st \<longleftrightarrow> (\<forall>k w. pingmap st k = Some w \<longrightarrow> Seq_ping w = k)"

definition tinv :: "nat \<Rightarrow> tstate \<Rightarrow> bool" where
  "tinv n st \<longleftrightarrow> unat (seq_st st) = n
     \<and> (\<forall>k w. pingmap st k = Some w \<longrightarrow> 0 < unat k \<and> unat k \<le> n)"


section \<open>Socket set-up and the listener (ggping: runListener, coordinator lines 64-73)\<close>

text \<open>
  \<open>log.Fatal\<close> prints its operands and ends the process with \<open>os.Exit(1)\<close>: a function
  that calls it does not return. \<open>Exits m\<close> is that end, with the message printed (the
  verb \<open>%v\<close> is printed as it stands, since \<open>log.Fatal\<close> does not format); \<open>Goes x\<close> is
  the function going on with \<open>x\<close>.
\<close>

datatype 'a proc = Exits string | Goes 'a

definition open_socket :: "error \<Rightarrow> error \<Rightarrow> unit proc" where
  "open_socket listen_err ctl_err =
     (case listen_err of
        Some e \<Rightarrow> Exits (''Could not open raw socket ip4:icmp: %v'' @ e)
      | None \<Rightarrow> (case ctl_err of Some e \<Rightarrow> Exits e | None \<Rightarrow> Goes ()))"

text \<open>
  The read loop of \<open>runListener\<close> over the reads that happen, each given with the clock
  at its return. It hands every capture read without error to the handler and never
  returns: it is either still blocked in \<open>ReadFrom\<close> (no message) or the process has
  ended (the message).
\<close>

fun read_loop :: "(rawIcmp \<times> time) list \<Rightarrow> rawIcmp list \<times> string option" where
  "read_loop [] = ([], None)"
| "read_loop ((ri, t) # rs) =
     (case err_ri ri of
        Some e \<Rightarrow> ([], Some (''Could not read from socket: %v'' @ e))
      | None \<Rightarrow> (let (handed, ended) = read_loop rs in (ri\<lparr>when_ri := t\<rparr> # handed, ended)))"

definition runListener :: "error \<Rightarrow> error \<Rightarrow> (rawIcmp \<times> time) list \<Rightarrow> rawIcmp list \<times> string option" where
  "runListener listen_err ctl_err reads =
     (case open_socket listen_err ctl_err of
        Exits m \<Rightarrow> ([], Some m)
      | Goes u \<Rightarrow> read_loop reads)"

text \<open>
  The start of \<open>coordinator\<close>: it opens and configures its socket the same way, and
  enters its loop in state \<open>tinit\<close> only if both succeed.
\<close>

definition coordinator_start :: "error \<Rightarrow> error \<Rightarrow> tstate proc" where
  "coordinator_start listen_err ctl_err =
     (case open_socket listen_err ctl_err of
        Exits m \<Rightarrow> Exits m
      | Goes u \<Rightarrow> Goes tinit)"

text \<open>The state a run ends in (\<open>cinit\<close> if the run cannot happen).\<close>

definition final :: "cstate option \<Rightarrow> cstate" where
  "final res = (case res of None \<Rightarrow> cinit | Some s \<Rightarrow> s)"

text \<open>
  Invariant of the coordinator: the wait group counts the requests that are waiting on
  \<open>pin\<close> or are in an attempt; the shutdown starts only after the sink is closed; and
  \<open>out\<close> is closed only at count zero.
\<close>

definition cinv :: "cstate \<Rightarrow> bool" where
  "cinv s \<longleftrightarrow> wg s = int (length (pin_senders s) + length (attempts s))
     \<and> (doneIn_pending s \<or> waiting s \<or> out_closed s \<longrightarrow> \<not> in_open s)
     \<and> (done_pending s \<or> returned s \<longrightarrow> out_closed s)
     \<and> (out_closed s \<longrightarrow> wg s = 0)"

text \<open>The requests with a negative Count that are waiting on \<open>pin\<close> or in an attempt.\<close>

definition unbounded_left :: "cstate \<Rightarrow> request list" where
  "unbounded_left s = filter (\<lambda>r. Count (Config r) < 0) (pin_senders s @ map fst (attempts s))"

text \<open>
  Book-keeping for counting Responses. With \<open>n\<close> the Count of a job, \<open>need_pin n r\<close> is the
  number of Responses a request waiting on \<open>pin\<close> will still give and \<open>need_att n r\<close>
  the number a request in an attempt will still give (its own included); \<open>owed r s\<close>
  adds them up over the outstanding requests of the job of \<open>r\<close>, and \<open>due r evs\<close> over
  the submissions of that job.
\<close>

definition need_pin :: "int \<Rightarrow> request \<Rightarrow> int" where
  "need_pin n r = max 1 (n - int (Sent r))"

definition need_att :: "int \<Rightarrow> request \<Rightarrow> int" where
  "need_att n r = 1 + max 0 (n - int (Sent r))"

definition owed :: "request \<Rightarrow> cstate \<Rightarrow> int" where
  "owed r s =
     sum_list (map (need_pin (Count (Config r))) (filter (\<lambda>r'. job r' = job r) (pin_senders s)))
   + sum_list (map (need_att (Count (Config r)))
       (filter (\<lambda>r'. job r' = job r) (map fst (attempts s))))"

definition due :: "request \<Rightarrow> cevent list \<Rightarrow> int" where
  "due r evs =
     sum_list (map (need_pin (Count (Config r))) (filter (\<lambda>r'. job r' = job r) (submitted evs)))"

subsection \<open>Example inputs\<close>

definition example_config :: config where
  "example_config =
     \<lparr>Count = 3, Interval = 100000000, Timeout = 50000000, TOS = 0, TTL = 64, PacketSize = 100\<rparr>"

definition example_request :: request where
  "example_request =
     \<lparr>ReqId = 1, Host = ''8.8.8.8'', Config = example_config, UserData = [], Sent = 1\<rparr>"

definition example_reply :: rawResponse where
  "example_reply =
     \<lparr>RTT = Float 10, From = [8, 8, 8, 8],
      ICMPMessage = \<lparr>Type = Some ICMPTypeEchoReply, Code = 0, Checksum = 0, Body = None\<rparr>\<rparr>"

definition ping_a :: ping where
  "ping_a = \<lparr>To = ''8.8.8.8'', Timeout_ping = 3, EchoMap = [], When = 0, Seq_ping = 0,
              Pong = \<lparr>Rtt = 0, Err_pong = None\<rparr>, EchoChannel = True\<rparr>"

definition ping_b :: ping where
  "ping_b = \<lparr>To = ''1.1.1.1'', Timeout_ping = 3, EchoMap = [], When = 0, Seq_ping = 0,
              Pong = \<lparr>Rtt = 0, Err_pong = None\<rparr>, EchoChannel = True\<rparr>"

definition env_ok :: "time \<Rightarrow> send_env" where
  "env_ok t = \<lparr>resolves = True, marshals = True, now = t, writes = True\<rparr>"

definition echo_reply :: "int \<Rightarrow> int \<Rightarrow> icmp_message option" where
  "echo_reply pid n =
     Some \<lparr>Type = Some ICMPTypeEchoReply, Code = 0, Checksum = 0,
           Body = Some \<lparr>EchoID = pid, EchoSeq = n, EchoData = map of_char ''HELLO-R-U-THERE''\<rparr>\<rparr>"

definition capture :: "time \<Rightarrow> rawIcmp" where
  "capture t = \<lparr>when_ri = t, size_ri = 23, bytes_ri = [], err_ri = None\<rparr>"

definition unbounded_request :: request where
  "unbounded_request = example_request\<lparr>Config := example_config\<lparr>Count := -1\<rparr>, Sent := 0\<rparr>"

definition fresh_request :: request where
  "fresh_request = example_request\<lparr>Sent := 0\<rparr>"

definition zero_request :: request where
  "zero_request = example_request\<lparr>Config := example_config\<lparr>Count := 0\<rparr>, Sent := 0\<rparr>"

definition example_envs :: "(int \<times> error \<times> (duration \<times> rawResponse) option \<times> bool) list" where
  "example_envs =
     [(1, None, Some (10000000, example_reply), True),
      (2, None, None, True),
      (3, Some ''no route'', None, True)]"

definition used_request :: request where
  "used_request = example_request\<lparr>Sent := 5\<rparr>"

definition big_request :: request where
  "big_request = example_request\<lparr>Config := example_config\<lparr>Count := 2 ^ 53 + 1\<rparr>, Sent := 0\<rparr>"

section \<open>Verified properties: one attempt\<close>

lemma classify_success: "t = ICMPTypeEcho \<or> t = ICMPTypeEchoReply \<Longrightarrow> classify (Some t) = None"
  by (auto simp: classify_def)

lemma classify_named:
  "classify (Some ICMPTypeDestinationUnreachable) = Some ''Destination Unreachable''"
  "classify (Some ICMPTypeTimeExceeded) = Some ''Time Exceeded''"
  "classify (Some ICMPTypeParameterProblem) = Some ''Parameter Problem''"
  "classify (Some ICMPTypeRedirect) = Some ''Redirect''"
  by (simp_all add: classify_def ICMPType_defs)

lemma classify_other:
  "t \<notin> Some ` {ICMPTypeEcho, ICMPTypeEchoReply, ICMPTypeDestinationUnreachable,
        ICMPTypeTimeExceeded, ICMPTypeParameterProblem, ICMPTypeRedirect}
   \<Longrightarrow> classify t = Some ''uncategorized ICMP RAW Response Type''"
  by (auto simp: classify_def)

lemma select_race_before: "d < tmo \<Longrightarrow> select_race tmo (Some (d, r)) coin = FutureFired r"
  by (auto simp: select_race_def)

lemma select_race_never: "select_race tmo None coin = TimeoutFired"
  by (simp add: select_race_def)

lemma attempt_reply:
  "d < Timeout (Config recv) \<Longrightarrow>
   attempt recv seq None (Some (d, r)) coin =
     \<lparr>Request = recv, Seq = seq, Err = classify (Type (ICMPMessage r)), RawResponse = r\<rparr>"
  by (simp add: attempt_def build_response_def select_race_before)

lemma attempt_timeout:
  "attempt recv seq None None coin =
     \<lparr>Request = recv, Seq = seq, Err = Some ''Timeout'', RawResponse = nan_raw\<rparr>"
  by (simp add: attempt_def build_response_def select_race_never)

lemma attempt_send_failure:
  "attempt recv seq (Some e) arrival coin =
     \<lparr>Request = recv, Seq = seq, Err = Some e, RawResponse = nan_raw\<rparr>"
  by (simp add: attempt_def build_response_def)

lemma attempt_late:
  "max (Timeout (Config recv)) 0 < d \<Longrightarrow>
   attempt recv seq None (Some (d, r)) coin =
     \<lparr>Request = recv, Seq = seq, Err = Some ''Timeout'', RawResponse = nan_raw\<rparr>"
  by (auto simp: attempt_def build_response_def select_race_def)

text \<open>
  Claim C5. The Err of an attempt's Response follows from the attempt's outcome: a reply
  of kind Echo or EchoReply delivered before the timeout gives nil; Destination
  Unreachable, Time Exceeded, Parameter Problem and Redirect give the error of that
  name; every other kind gives the uncategorized-type error; no reply within the
  timeout, be it that none ever comes or that it comes only after the timer, gives
  the Timeout error whatever its kind; and a send failure gives a Response with the
  send's error, whatever the reply stream would have held, after waiting for nothing.
\<close>

theorem C5_response_err:
  "(d < Timeout (Config recv) \<longrightarrow>
      Err (attempt recv seq None (Some (d, r)) coin) =
        (let t = Type (ICMPMessage r) in
         if t = Some ICMPTypeEcho \<or> t = Some ICMPTypeEchoReply then None
         else if t = Some ICMPTypeDestinationUnreachable then Some ''Destination Unreachable''
         else if t = Some ICMPTypeTimeExceeded then Some ''Time Exceeded''
         else if t = Some ICMPTypeParameterProblem then Some ''Parameter Problem''
         else if t = Some ICMPTypeRedirect then Some ''Redirect''
         else Some ''uncategorized ICMP RAW Response Type''))
   \<and> Err (attempt recv seq None None coin) = Some ''Timeout''
   \<and> (max (Timeout (Config recv)) 0 < d' \<longrightarrow>
        Err (attempt recv seq None (Some (d', r')) coin) = Some ''Timeout'')
   \<and> Err (attempt recv seq (Some e) arrival coin) = Some e
   \<and> attempt_wait recv (Some e) arrival = 0"
  by (simp add: attempt_reply attempt_timeout attempt_send_failure attempt_late
        attempt_wait_def classify_def Let_def)

theorem C5_response_err_witness:
  "(10000000::int) < Timeout (Config example_request)
   \<and> Err (attempt example_request 7 None (Some (10000000, example_reply)) True) = None
   \<and> Err (attempt example_request 7 None None True) = Some ''Timeout''
   \<and> max (Timeout (Config example_request)) 0 < (60000000::int)
   \<and> Err (attempt example_request 7 None (Some (60000000, example_reply)) True)
       = Some ''Timeout''
   \<and> Err (attempt example_request 7 (Some ''no route'') None True) = Some ''no route''"
  using C5_response_err [where d = 10000000 and recv = example_request and seq = 7
      and r = example_reply and coin = True and e = "''no route''" and arrival = None
      and d' = 60000000 and r' = example_reply]
  by (simp add: example_request_def example_config_def example_reply_def ICMPType_defs)

text \<open>
  Claim C10. An attempt that ends without a raw reply being delivered (the send failed,
  no reply ever came, or the reply came only after the timeout) emits a Response whose
  RawResponse is the one the Response was built with: RTT is NaN, From is nil and
  ICMPMessage is the zero message. The RawResponse is set to something else only when
  the reply is delivered before the timeout, and then it is the delivered value.
\<close>

theorem C10_raw_untouched:
  "RawResponse (attempt recv seq (Some e) arrival coin)
     = \<lparr>RTT = NaN, From = [], ICMPMessage = zero_message\<rparr>
   \<and> RawResponse (attempt recv seq None None coin)
     = \<lparr>RTT = NaN, From = [], ICMPMessage = zero_message\<rparr>
   \<and> (max (Timeout (Config recv)) 0 < d \<longrightarrow>
        RawResponse (attempt recv seq None (Some (d, r)) coin)
          = \<lparr>RTT = NaN, From = [], ICMPMessage = zero_message\<rparr>)
   \<and> (d < Timeout (Config recv) \<longrightarrow>
        RawResponse (attempt recv seq None (Some (d, r)) coin) = r)"
  by (simp add: attempt_reply attempt_timeout attempt_send_failure attempt_late nan_raw_def)

theorem C10_raw_untouched_witness:
  "max (Timeout (Config example_request)) 0 < (60000000::int)
   \<and> RTT (RawResponse (attempt example_request 7 None (Some (60000000, example_reply)) True)) = NaN
   \<and> (10000000::int) < Timeout (Config example_request)
   \<and> RawResponse (attempt example_request 7 None (Some (10000000, example_reply)) True)
       = example_reply"
  using C10_raw_untouched [where recv = example_request and seq = 7 and coin = True
      and d = 60000000 and r = example_reply]
    C10_raw_untouched [where recv = example_request and seq = 7 and coin = True
      and d = 10000000 and r = example_reply]
  by (simp add: example_request_def example_config_def)

section \<open>Verified properties: the transport\<close>

lemmas transport_defs = ping_case_def pong_case_def assign_seq_def register_def sendMessage_def
  waiter_def echo_request_def millisecond_def Let_def

lemmas example_defs = tinit_def env_ok_def echo_reply_def capture_def ping_a_def ping_b_def
  ICMPTypeEchoReply_def ICMPTypeEcho_def



lemma echoes_append: "echoes (a @ b) = echoes a @ echoes b"
  by (induction a rule: echoes.induct) simp_all



lemma unat_succ: "unat (x :: 64 word) < 2 ^ 64 - 1 \<Longrightarrow> unat (x + 1) = Suc (unat x)"
  using unat_add_lem [of x 1] by simp

lemma keyinv_step:
  "keyinv st \<Longrightarrow> step pid e st = Some (st', acts) \<Longrightarrow> keyinv st'"
  by (cases e)
     (auto simp: keyinv_def transport_defs split: option.splits if_splits prod.splits)

lemma tinv_step:
  assumes "tinv n st" "step pid e st = Some (st', acts)" "n + pings [e] < 2 ^ 64"
  shows "tinv (n + pings [e]) st'"
proof (cases e)
  case (PingEv pg env)
  from assms have n: "unat (seq_st st) = n" "n < 2 ^ 64 - 1"
    using PingEv by (auto simp: tinv_def)
  then have s: "unat (seq_st st + 1) = Suc n" by (simp add: unat_succ)
  from assms(1) have old: "\<And>k w. pingmap st k = Some w \<Longrightarrow> 0 < unat k \<and> unat k \<le> n"
    by (auto simp: tinv_def)
  show ?thesis using assms(2) PingEv s old
    by (auto simp: tinv_def transport_defs split: if_splits dest!: old) 
next
  case (PongEv ri parsed)
  then show ?thesis using assms
    by (auto simp: tinv_def pong_case_def split: option.splits if_splits)
qed

lemma pings_Cons: "pings (e # es) = pings [e] + pings es"
  by (cases e) simp_all

lemma keyinv_run:
  "keyinv st \<Longrightarrow> run pid evs st = Some (st', acts) \<Longrightarrow> keyinv st'"
proof (induction evs arbitrary: st acts)
  case Nil
  then show ?case by simp
next
  case (Cons e es)
  then show ?case
    by (auto split: option.splits prod.splits dest: keyinv_step)
qed

lemma tinv_run:
  "tinv n st \<Longrightarrow> run pid evs st = Some (st', acts) \<Longrightarrow> n + pings evs < 2 ^ 64
   \<Longrightarrow> tinv (n + pings evs) st'"
proof (induction evs arbitrary: n st acts)
  case Nil
  then show ?case by simp
next
  case (Cons e es)
  from Cons.prems(2) obtain st1 a b where
    s: "step pid e st = Some (st1, a)" and r: "run pid es st1 = Some (st', b)"
    by (auto split: option.splits prod.splits)
  have le: "n + pings [e] + pings es < 2 ^ 64"
    using Cons.prems(3) pings_Cons [of e es] by simp
  then have "tinv (n + pings [e]) st1"
    using tinv_step [OF Cons.prems(1) s] by simp
  from Cons.IH [OF this r le] show ?case
    using pings_Cons [of e es] by (simp add: add.assoc)
qed

lemma tinv_tinit: "tinv 0 tinit"
  by (simp add: tinv_def tinit_def)

lemma keyinv_tinit: "keyinv tinit"
  by (simp add: keyinv_def tinit_def)

text \<open>
  Claim C7, as the code has it. Every ping taken by the loop gets the counter's next
  value, one more than the last, whether or not its send then succeeds. The counter is
  a Go \<open>int\<close>: as long as fewer than \<open>2 ^ 64 - 1\<close> pings were taken it has not wrapped,
  it equals the number of pings taken, the next number is not a key of the ping map,
  and every outstanding entry carries its own key, so that no two outstanding attempts
  share a number.
\<close>

theorem C7_seq_counter:
  assumes "run pid evs tinit = Some (st, acts)" and "pings evs < 2 ^ 64 - 1"
  shows "unat (seq_st st) = pings evs
    \<and> Seq_ping (snd (assign_seq st pg)) = seq_st st + 1
    \<and> unat (seq_st st + 1) = pings evs + 1
    \<and> pingmap st (seq_st st + 1) = None
    \<and> (\<forall>k w. pingmap st k = Some w \<longrightarrow> Seq_ping w = k)"
proof -
  have t: "tinv (pings evs) st"
    using tinv_run [OF tinv_tinit assms(1)] assms(2) by simp
  have k: "keyinv st"
    using keyinv_run [OF keyinv_tinit assms(1)] .
  from t have u: "unat (seq_st st) = pings evs" by (simp add: tinv_def)
  then have s: "unat (seq_st st + 1) = pings evs + 1"
    using assms(2) by (simp add: unat_succ)
  have "pingmap st (seq_st st + 1) = None"
  proof (cases "pingmap st (seq_st st + 1)")
    case (Some w)
    with t have "unat (seq_st st + 1) \<le> pings evs" by (auto simp: tinv_def)
    with s show ?thesis by simp
  qed simp
  with u s k show ?thesis by (simp add: assign_seq_def Let_def keyinv_def)
qed

theorem C7_seq_counter_witness:
  "run 4242 [PingEv ping_a (env_ok 0), PingEv ping_b (env_ok 5)] tinit \<noteq> None
   \<and> pings [PingEv ping_a (env_ok 0), PingEv ping_b (env_ok 5)] < 2 ^ 64 - 1
   \<and> unat (seq_st (state_of (run 4242 [PingEv ping_a (env_ok 0), PingEv ping_b (env_ok 5)] tinit))) = 2
   \<and> pingmap (state_of (run 4242 [PingEv ping_a (env_ok 0), PingEv ping_b (env_ok 5)] tinit)) 3 = None"
proof -
  let ?evs = "[PingEv ping_a (env_ok 0), PingEv ping_b (env_ok 5)]"
  have r: "run 4242 ?evs tinit \<noteq> None"
    by (simp split: prod.splits)
  then have h: "run 4242 ?evs tinit = Some (state_of (run 4242 ?evs tinit), actions_of (run 4242 ?evs tinit))"
    by (cases "run 4242 ?evs tinit") (auto simp: state_of_def actions_of_def)
  have p: "pings ?evs < 2 ^ 64 - 1" by simp
  have s: "seq_st (state_of (run 4242 ?evs tinit)) = 2"
    by (simp add: state_of_def tinit_def transport_defs env_ok_def split: prod.splits)
  have t: "(2::64 word) + 1 = 3" by simp
  from C7_seq_counter [OF h p, of ping_a]
  have "unat (seq_st (state_of (run 4242 ?evs tinit))) = pings ?evs"
    and "pingmap (state_of (run 4242 ?evs tinit)) (seq_st (state_of (run 4242 ?evs tinit)) + 1) = None"
    by blast+
  then have "unat (seq_st (state_of (run 4242 ?evs tinit))) = 2"
    and "pingmap (state_of (run 4242 ?evs tinit)) 3 = None"
    unfolding s t by simp_all
  with r p show ?thesis by blast
qed

lemma seq_after_pings:
  "\<exists>st' acts. run pid (replicate n (PingEv pg env)) st = Some (st', acts)
      \<and> seq_st st' = seq_st st + of_nat n"
proof (induction n arbitrary: st)
  case 0
  then show ?case by simp
next
  case (Suc n)
  obtain st1 a where s: "ping_case pid pg env st = (st1, a)" by (cases "ping_case pid pg env st")
  then have q: "seq_st st1 = seq_st st + 1"
    by (auto simp: transport_defs split: if_splits prod.splits)
  from Suc [of st1] obtain st' b where
    "run pid (replicate n (PingEv pg env)) st1 = Some (st', b)" "seq_st st' = seq_st st1 + of_nat n"
    by blast
  with s q show ?case by simp
qed

text \<open>
  Claim C7 as stated fails: the numbers do not wrap at the 16-bit range of the wire
  field. The ping taken after 65535 others gets the number 65536.
\<close>

theorem C7_counter_does_not_wrap_at_16_bits:
  "unat (seq_st (state_of (run 4242 (replicate 65536 (PingEv ping_a (env_ok 0))) tinit))) = 65536"
proof -
  obtain st' acts where
    "run 4242 (replicate 65536 (PingEv ping_a (env_ok 0))) tinit = Some (st', acts)"
    "seq_st st' = seq_st tinit + of_nat 65536"
    using seq_after_pings by blast
  then show ?thesis by (simp add: state_of_def tinit_def)
qed








text \<open>
  Claim C9 fails on the code: the round-trip time is computed as the send time minus
  the arrival time. A ping sent at 1 s whose reply arrives 10 ms later is handed back
  with \<open>Rtt = -10\<close> (milliseconds), not 10.
\<close>

theorem C9_rtt_is_send_minus_arrival:
  "map (Rtt \<circ> Pong) (echoes (actions_of (run 4242
     [PingEv ping_a (env_ok 1000000000),
      PongEv (capture 1010000000) (echo_reply 4242 1)] tinit)))
   = [- 10]"
  by (simp add: transport_defs example_defs actions_of_def)

text \<open>
  Claim C2 fails on the code: the reply is looked up under the loop's counter, not under
  the number it carries. With the pings numbered 1 and 2 outstanding, the reply that
  carries 1 is delivered to the channel of ping 2; entry 2 is removed and entry 1 stays.
\<close>

theorem C2_reply_matched_on_latest_seq:
  "map Seq_ping (deliveries (actions_of (run 4242
       [PingEv ping_a (env_ok 1000000000), PingEv ping_b (env_ok 1000000000),
        PongEv (capture 1010000000) (echo_reply 4242 1)] tinit))) = [2]
   \<and> pingmap (state_of (run 4242
       [PingEv ping_a (env_ok 1000000000), PingEv ping_b (env_ok 1000000000),
        PongEv (capture 1010000000) (echo_reply 4242 1)] tinit)) 1 \<noteq> None
   \<and> pingmap (state_of (run 4242
       [PingEv ping_a (env_ok 1000000000), PingEv ping_b (env_ok 1000000000),
        PongEv (capture 1010000000) (echo_reply 4242 1)] tinit)) 2 = None"
  by (simp add: transport_defs example_defs actions_of_def state_of_def)

text \<open>
  Claim C4 fails on the code: nothing but a delivery removes an entry. The ping
  numbered 1, sent at 1 s with a timeout of 3 s, still has its entry when the
  coordinator's attempt has answered Timeout; and its reply, arriving at 11 s, is then
  delivered to it all the same, so that both branches fire for the one attempt.
\<close>

theorem C4_entry_survives_timeout:
  "pingmap (state_of (run 4242 [PingEv ping_a (env_ok 1000000000)] tinit)) 1 \<noteq> None
   \<and> Err (build_response example_request 1 None TimeoutFired) = Some ''Timeout''
   \<and> map Seq_ping (deliveries (actions_of (run 4242
        [PingEv ping_a (env_ok 1000000000),
         PongEv (capture 11000000000) (echo_reply 4242 1)] tinit))) = [1]"
  by (simp add: transport_defs example_defs actions_of_def state_of_def build_response_def)

section \<open>Verified properties: socket failures\<close>

lemma read_loop_ok:
  "\<forall>(ri, t) \<in> set rs. err_ri ri = None \<Longrightarrow>
   read_loop rs = (map (\<lambda>(ri, t). ri\<lparr>when_ri := t\<rparr>) rs, None)"
  by (induction rs) auto

lemma read_loop_fails:
  "\<forall>(ri, t) \<in> set rs. err_ri ri = None \<Longrightarrow> err_ri bad = Some e \<Longrightarrow>
   read_loop (rs @ (bad, t') # rest)
     = (map (\<lambda>(ri, t). ri\<lparr>when_ri := t\<rparr>) rs, Some (''Could not read from socket: %v'' @ e))"
  by (induction rs) auto

text \<open>
  Claim C8, as the code has it. A failure to open or to configure the raw socket ends
  the process: the listener hands nothing on and the coordinator does not enter its
  loop. A failed read after a good start ends the process too, after the captures read
  before it were handed on. Neither is returned or signalled to the caller.
\<close>

theorem C8_socket_failure_ends_process:
  "(listen_err \<noteq> None \<or> ctl_err \<noteq> None \<longrightarrow>
      (\<exists>m. coordinator_start listen_err ctl_err = Exits m
           \<and> runListener listen_err ctl_err reads = ([], Some m)))
   \<and> ((\<forall>(ri, t) \<in> set rs. err_ri ri = None) \<and> err_ri bad = Some e \<longrightarrow>
        runListener None None (rs @ (bad, t') # rest)
          = (map (\<lambda>(ri, t). ri\<lparr>when_ri := t\<rparr>) rs,
             Some (''Could not read from socket: %v'' @ e)))"
  by (auto simp: coordinator_start_def runListener_def open_socket_def read_loop_fails
        split: option.splits)

theorem C8_socket_failure_ends_process_witness:
  "coordinator_start (Some ''operation not permitted'') None
     = Exits ''Could not open raw socket ip4:icmp: %voperation not permitted''
   \<and> runListener None None
        [(capture 0, 5), (capture 0\<lparr>err_ri := Some ''bad file descriptor''\<rparr>, 9), (capture 0, 12)]
     = ([capture 5], Some ''Could not read from socket: %vbad file descriptor'')"
proof -
  have 1: "coordinator_start (Some ''operation not permitted'') None
     = Exits ''Could not open raw socket ip4:icmp: %voperation not permitted''"
    using C8_socket_failure_ends_process
      [where listen_err = "Some ''operation not permitted''" and ctl_err = None
        and rs = "[]" and bad = "capture 0\<lparr>err_ri := Some ''bad file descriptor''\<rparr>"
        and e = "''bad file descriptor''"]
    by (auto simp: coordinator_start_def open_socket_def)
  have 2: "runListener None None
        ([(capture 0, 5)] @ (capture 0\<lparr>err_ri := Some ''bad file descriptor''\<rparr>, 9) # [(capture 0, 12)])
     = (map (\<lambda>(ri, t). ri\<lparr>when_ri := t\<rparr>) [(capture 0, 5)],
        Some (''Could not read from socket: %v'' @ ''bad file descriptor''))"
    using C8_socket_failure_ends_process
      [where listen_err = None and ctl_err = None
        and rs = "[(capture 0, 5)]" and bad = "capture 0\<lparr>err_ri := Some ''bad file descriptor''\<rparr>"
        and e = "''bad file descriptor''" and t' = 9 and rest = "[(capture 0, 12)]"]
    by (simp add: capture_def)
  from 1 2 show ?thesis by (simp add: capture_def)
qed

text \<open>
  Claim C8 as stated fails: when the socket cannot be opened, the start of the
  coordinator does not return an error; the process ends. A failed read ends it as well.
\<close>

theorem C8_start_exits_on_socket_failure:
  "coordinator_start (Some ''operation not permitted'') None
     = Exits ''Could not open raw socket ip4:icmp: %voperation not permitted''
   \<and> snd (runListener None None [(capture 0\<lparr>err_ri := Some ''bad file descriptor''\<rparr>, 9)])
     = Some ''Could not read from socket: %vbad file descriptor''"
  by (simp add: coordinator_start_def runListener_def open_socket_def capture_def)

section \<open>Verified properties: the request coordinator\<close>

lemmas c_defs = cinit_def unbounded_request_def example_request_def example_config_def
  float64_incr_def remove_nth_def attempt_def build_response_def select_race_def Let_def

lemma length_remove_nth: "i < length xs \<Longrightarrow> length (remove_nth i xs) = length xs - 1"
  by (simp add: remove_nth_def)

lemma set_remove_nth: "i < length xs \<Longrightarrow> set xs = insert (xs ! i) (set (remove_nth i xs))"
proof -
  assume "i < length xs"
  then have "xs = take i xs @ xs ! i # drop (Suc i) xs" by (rule id_take_nth_drop)
  then have "set xs = set (take i xs @ xs ! i # drop (Suc i) xs)" by simp
  then show ?thesis by (simp add: remove_nth_def)
qed

lemma cinv_cinit: "cinv cinit"
  by (simp add: cinv_def cinit_def)

lemma cinv_step: "cinv s \<Longrightarrow> cstep e s = Some s' \<Longrightarrow> cinv s'"
  by (cases e)
     (auto simp: cinv_def Let_def length_remove_nth split: if_splits prod.splits)

lemma cinv_run: "cinv s \<Longrightarrow> crun evs s = Some s' \<Longrightarrow> cinv s'"
  by (induction evs arbitrary: s) (auto split: option.splits dest: cinv_step)

lemma unbounded_step:
  assumes "unbounded_left s \<noteq> []" "cstep e s = Some s'"
  shows "unbounded_left s' \<noteq> []"
proof -
  from assms(1) obtain r where r: "Count (Config r) < 0"
    "r \<in> set (pin_senders s) \<or> r \<in> fst ` set (attempts s)"
    by (auto simp: unbounded_left_def filter_empty_conv)
  show ?thesis
  proof (cases e)
    case (Dispatch i seq err)
    with assms(2) have i: "i < length (pin_senders s)" by (auto split: if_splits)
    from set_remove_nth [OF i] r Dispatch assms(2) show ?thesis
      by (auto simp: unbounded_left_def filter_empty_conv Let_def split: if_splits)
  next
    case (Finish j arrival coin)
    with assms(2) have j: "j < length (attempts s)" by (auto split: if_splits)
    obtain recv seq err where a: "attempts s ! j = (recv, seq, err)" by (cases "attempts s ! j")
    from set_remove_nth [OF j] r Finish assms(2) a show ?thesis
      by (auto simp: unbounded_left_def filter_empty_conv Let_def split: if_splits)
  qed (use assms r in \<open>auto simp: unbounded_left_def filter_empty_conv Let_def split: if_splits\<close>)
qed

lemma unbounded_submit:
  assumes "cstep (Submit r) s = Some s'" "Count (Config r) < 0"
  shows "unbounded_left s' \<noteq> []"
  using assms by (auto simp: unbounded_left_def Let_def split: if_splits)

lemma unbounded_run:
  "unbounded_left s \<noteq> [] \<or> (\<exists>r \<in> set (submitted evs). Count (Config r) < 0)
   \<Longrightarrow> crun evs s = Some s' \<Longrightarrow> unbounded_left s' \<noteq> []"
proof (induction evs arbitrary: s)
  case Nil
  then show ?case by simp
next
  case (Cons e es)
  from Cons.prems(2) obtain s1 where s1: "cstep e s = Some s1" "crun es s1 = Some s'"
    by (auto split: option.splits)
  have "unbounded_left s1 \<noteq> [] \<or> (\<exists>r \<in> set (submitted es). Count (Config r) < 0)"
  proof (cases "unbounded_left s \<noteq> []")
    case True
    then show ?thesis using unbounded_step s1(1) by blast
  next
    case False
    with Cons.prems(1) obtain r where r: "r \<in> set (submitted (e # es))" "Count (Config r) < 0"
      by blast
    show ?thesis
    proof (cases "e = Submit r")
      case True
      then show ?thesis using unbounded_submit s1(1) r(2) by blast
    next
      case False
      with r have "r \<in> set (submitted es)" by (cases e) auto
      with r(2) show ?thesis by blast
    qed
  qed
  from Cons.IH [OF this s1(2)] show ?case .
qed

lemma unbounded_enabled:
  assumes "cinv s" "unbounded_left s \<noteq> []"
  shows "0 < wg s \<and> \<not> out_closed s \<and> \<not> returned s \<and> cstep CloseOut s = None
     \<and> (cstep (Dispatch 0 seq err) s \<noteq> None \<or> cstep (Finish 0 arrival coin) s \<noteq> None)"
proof -
  from assms(2) have ne: "pin_senders s \<noteq> [] \<or> attempts s \<noteq> []"
    by (auto simp: unbounded_left_def)
  then have "0 < length (pin_senders s) + length (attempts s)" by auto
  moreover from assms(1) have "wg s = int (length (pin_senders s) + length (attempts s))"
    by (simp add: cinv_def)
  ultimately have w: "0 < wg s" by linarith
  from assms(1) have "out_closed s \<longrightarrow> wg s = 0" "returned s \<longrightarrow> out_closed s"
    unfolding cinv_def by blast+
  with w have c: "\<not> out_closed s" "\<not> returned s" by auto
  from ne c have "cstep (Dispatch 0 seq err) s \<noteq> None \<or> cstep (Finish 0 arrival coin) s \<noteq> None"
    by (auto simp: Let_def split: prod.splits)
  with w c show ?thesis by simp
qed

lemma job_Sent: "job (r\<lparr>Sent := x\<rparr>) = job r"
  by (simp add: job_def)

lemma job_Config: "job r' = job r \<Longrightarrow> Config r' = Config r"
  by (cases r, cases r') (simp add: job_def)

lemma outstanding_iff:
  "outstanding r s \<noteq> [] \<longleftrightarrow>
     (\<exists>i < length (pin_senders s). job (pin_senders s ! i) = job r)
   \<or> (\<exists>j < length (attempts s). job (fst (attempts s ! j)) = job r)"
proof -
  have "outstanding r s \<noteq> [] \<longleftrightarrow>
      (\<exists>r' \<in> set (pin_senders s). job r' = job r) \<or> (\<exists>a \<in> set (attempts s). job (fst a) = job r)"
    by (auto simp: outstanding_def filter_empty_conv)
  moreover have "(\<exists>r' \<in> set (pin_senders s). job r' = job r)
      \<longleftrightarrow> (\<exists>i < length (pin_senders s). job (pin_senders s ! i) = job r)"
    by (metis in_set_conv_nth)
  moreover have "(\<exists>a \<in> set (attempts s). job (fst a) = job r)
      \<longleftrightarrow> (\<exists>j < length (attempts s). job (fst (attempts s ! j)) = job r)"
    by (metis in_set_conv_nth)
  ultimately show ?thesis by simp
qed

lemma dispatch_enabled:
  assumes "i < length (pin_senders s)" "\<not> returned s"
  shows "cstep (Dispatch i seq err) s =
     Some (s\<lparr>pin_senders := remove_nth i (pin_senders s),
             attempts := attempts s @
               [((pin_senders s ! i)\<lparr>Sent := float64_incr (Sent (pin_senders s ! i))\<rparr>, seq, err)]\<rparr>)"
  using assms by (simp add: Let_def)

lemma finish_unbounded:
  assumes "j < length (attempts s)" "\<not> out_closed s" "Count (Config (fst (attempts s ! j))) < 0"
  shows "cstep (Finish j arrival coin) s =
     Some (s\<lparr>attempts := remove_nth j (attempts s),
             out := out s @ [attempt (fst (attempts s ! j)) (fst (snd (attempts s ! j)))
                               (snd (snd (attempts s ! j))) arrival coin],
             pin_senders := pin_senders s @ [fst (attempts s ! j)]\<rparr>)"
proof -
  obtain recv seq err where a: "attempts s ! j = (recv, seq, err)" by (cases "attempts s ! j")
  with assms show ?thesis by (auto simp: Let_def)
qed

lemma outstanding_submit:
  assumes "cstep (Submit r) s = Some s'" "Count (Config r) \<noteq> 0"
  shows "outstanding r s' \<noteq> []"
  using assms by (auto simp: outstanding_def Let_def split: if_splits)

lemma outstanding_step:
  assumes neg: "Count (Config r) < 0" and o: "outstanding r s \<noteq> []"
    and st: "cstep e s = Some s'"
  shows "outstanding r s' \<noteq> []"
proof -
  from o obtain r' where r': "job r' = job r"
    "r' \<in> set (pin_senders s) \<or> r' \<in> fst ` set (attempts s)"
    by (auto simp: outstanding_def filter_empty_conv)
  show ?thesis
  proof (cases e)
    case (Dispatch i seq err)
    with st have i: "i < length (pin_senders s)" and nr: "\<not> returned s"
      by (auto split: if_splits)
    from st Dispatch have s': "s' = s\<lparr>pin_senders := remove_nth i (pin_senders s),
             attempts := attempts s @
               [((pin_senders s ! i)\<lparr>Sent := float64_incr (Sent (pin_senders s ! i))\<rparr>, seq, err)]\<rparr>"
      using dispatch_enabled [OF i nr] by simp
    from r'(2) set_remove_nth [OF i]
    consider "r' = pin_senders s ! i" | "r' \<in> set (remove_nth i (pin_senders s))"
      | "r' \<in> fst ` set (attempts s)" by auto
    then show ?thesis
    proof cases
      case 1
      then have "job ((pin_senders s ! i)\<lparr>Sent := float64_incr (Sent (pin_senders s ! i))\<rparr>) = job r"
        using r'(1) by (simp add: job_Sent)
      then show ?thesis unfolding s' by (simp add: outstanding_def)
    next
      case 2
      with r'(1) show ?thesis unfolding s' by (auto simp: outstanding_def filter_empty_conv)
    next
      case 3
      with r'(1) show ?thesis unfolding s' by (auto simp: outstanding_def filter_empty_conv)
    qed
  next
    case (Finish j arrival coin)
    with st have j: "j < length (attempts s)" and oc: "\<not> out_closed s"
      by (auto split: if_splits)
    from r'(2) set_remove_nth [OF j]
    consider "r' = fst (attempts s ! j)" | "r' \<in> fst ` set (remove_nth j (attempts s))"
      | "r' \<in> set (pin_senders s)" by auto
    then show ?thesis
    proof cases
      case 1
      then have "Count (Config (fst (attempts s ! j))) < 0"
        using job_Config [OF r'(1)] neg by simp
      from finish_unbounded [OF j oc this, of arrival coin] st Finish
      have s': "s' = s\<lparr>attempts := remove_nth j (attempts s),
             out := out s @ [attempt (fst (attempts s ! j)) (fst (snd (attempts s ! j)))
                               (snd (snd (attempts s ! j))) arrival coin],
             pin_senders := pin_senders s @ [fst (attempts s ! j)]\<rparr>" by simp
      from 1 r'(1) show ?thesis unfolding s' by (simp add: outstanding_def)
    next
      case 2
      have "set (attempts s') = set (remove_nth j (attempts s))"
        using st Finish j oc by (auto simp: Let_def split: if_splits prod.splits)
      with 2 r'(1) show ?thesis by (auto simp: outstanding_def filter_empty_conv)
    next
      case 3
      have "set (pin_senders s) \<subseteq> set (pin_senders s')"
        using st Finish j oc by (auto simp: Let_def split: if_splits prod.splits)
      with 3 r'(1) show ?thesis by (auto simp: outstanding_def filter_empty_conv)
    qed
  next
    case (Submit r0)
    with st r' show ?thesis
      by (auto simp: outstanding_def filter_empty_conv Let_def split: if_splits)
  qed (use st r' in \<open>auto simp: outstanding_def filter_empty_conv split: if_splits\<close>)
qed

lemma outstanding_run:
  assumes neg: "Count (Config r) < 0"
  shows "outstanding r s \<noteq> [] \<or> r \<in> set (submitted evs)
   \<Longrightarrow> crun evs s = Some s' \<Longrightarrow> outstanding r s' \<noteq> []"
proof (induction evs arbitrary: s)
  case Nil
  then show ?case by simp
next
  case (Cons e es)
  from Cons.prems(2) obtain s1 where s1: "cstep e s = Some s1" "crun es s1 = Some s'"
    by (auto split: option.splits)
  have "outstanding r s1 \<noteq> [] \<or> r \<in> set (submitted es)"
  proof (cases "outstanding r s \<noteq> []")
    case True
    then show ?thesis using outstanding_step [OF neg _ s1(1)] by blast
  next
    case False
    with Cons.prems(1) have r: "r \<in> set (submitted (e # es))" by blast
    show ?thesis
    proof (cases "e = Submit r")
      case True
      then show ?thesis using outstanding_submit [of r s s1] s1(1) neg by auto
    next
      case False
      with r have "r \<in> set (submitted es)" by (cases e) auto
      then show ?thesis by blast
    qed
  qed
  from Cons.IH [OF this s1(2)] show ?case .
qed

lemma attempts_none_when_closed:
  assumes "crun evs cinit = Some s" "out_closed s"
  shows "attempts s = []"
proof -
  have "cinv s" using cinv_run [OF cinv_cinit assms(1)] .
  with assms(2) have "int (length (pin_senders s) + length (attempts s)) = 0"
    unfolding cinv_def by metis
  then have "length (pin_senders s) + length (attempts s) = 0"
    by (simp only: of_nat_eq_0_iff)
  then show ?thesis by simp
qed

text \<open>
  Claim C3, as the code has it. Closing the sink does not stop a request with a
  negative Count. Once the request \<open>r\<close> has been submitted then, whatever has happened
  since and whether or not the sink has been closed, \<open>r\<close> itself (with its sent counter
  wherever it has got to) is waiting on \<open>pin\<close> or is in an attempt. Wherever it waits
  on \<open>pin\<close> the loop can receive it, and that starts its next attempt; wherever it is
  in an attempt, the attempt can send its Response on \<open>out\<close>, and puts the request back
  on \<open>pin\<close>. The wait group's counter is positive, \<open>out\<close> is not closed and cannot be
  closed now, and the loop has not returned.
\<close>

theorem C3_unbounded_request_never_stops:
  assumes "crun evs cinit = Some s" and "r \<in> set (submitted evs)" and "Count (Config r) < 0"
  shows "outstanding r s \<noteq> []
     \<and> ((\<exists>i < length (pin_senders s). job (pin_senders s ! i) = job r)
        \<or> (\<exists>j < length (attempts s). job (fst (attempts s ! j)) = job r))
     \<and> (\<forall>i < length (pin_senders s). job (pin_senders s ! i) = job r \<longrightarrow>
          cstep (Dispatch i seq err) s =
            Some (s\<lparr>pin_senders := remove_nth i (pin_senders s),
                    attempts := attempts s @
                      [((pin_senders s ! i)\<lparr>Sent := float64_incr (Sent (pin_senders s ! i))\<rparr>,
                        seq, err)]\<rparr>))
     \<and> (\<forall>j < length (attempts s). job (fst (attempts s ! j)) = job r \<longrightarrow>
          cstep (Finish j arrival coin) s =
            Some (s\<lparr>attempts := remove_nth j (attempts s),
                    out := out s @ [attempt (fst (attempts s ! j)) (fst (snd (attempts s ! j)))
                                      (snd (snd (attempts s ! j))) arrival coin],
                    pin_senders := pin_senders s @ [fst (attempts s ! j)]\<rparr>))
     \<and> 0 < wg s \<and> \<not> out_closed s \<and> \<not> returned s \<and> cstep CloseOut s = None"
proof -
  have o: "outstanding r s \<noteq> []"
    using outstanding_run [OF assms(3) _ assms(1)] assms(2) by blast
  have u: "unbounded_left s \<noteq> []"
    using unbounded_run [OF _ assms(1)] assms(2,3) by blast
  have "cinv s" using cinv_run [OF cinv_cinit assms(1)] .
  from unbounded_enabled [OF this u]
  have w: "0 < wg s" "\<not> out_closed s" "\<not> returned s" "cstep CloseOut s = None" by blast+
  have d: "\<forall>i < length (pin_senders s). job (pin_senders s ! i) = job r \<longrightarrow>
          cstep (Dispatch i seq err) s =
            Some (s\<lparr>pin_senders := remove_nth i (pin_senders s),
                    attempts := attempts s @
                      [((pin_senders s ! i)\<lparr>Sent := float64_incr (Sent (pin_senders s ! i))\<rparr>,
                        seq, err)]\<rparr>)"
    using dispatch_enabled w(3) by blast
  have f: "\<forall>j < length (attempts s). job (fst (attempts s ! j)) = job r \<longrightarrow>
          cstep (Finish j arrival coin) s =
            Some (s\<lparr>attempts := remove_nth j (attempts s),
                    out := out s @ [attempt (fst (attempts s ! j)) (fst (snd (attempts s ! j)))
                                      (snd (snd (attempts s ! j))) arrival coin],
                    pin_senders := pin_senders s @ [fst (attempts s ! j)]\<rparr>)"
  proof (intro allI impI)
    fix j assume j: "j < length (attempts s)" and jb: "job (fst (attempts s ! j)) = job r"
    have "Count (Config (fst (attempts s ! j))) < 0"
      using job_Config [OF jb] assms(3) by simp
    from finish_unbounded [OF j w(2) this]
    show "cstep (Finish j arrival coin) s =
            Some (s\<lparr>attempts := remove_nth j (attempts s),
                    out := out s @ [attempt (fst (attempts s ! j)) (fst (snd (attempts s ! j)))
                                      (snd (snd (attempts s ! j))) arrival coin],
                    pin_senders := pin_senders s @ [fst (attempts s ! j)]\<rparr>)" .
  qed
  from o have e: "(\<exists>i < length (pin_senders s). job (pin_senders s ! i) = job r)
        \<or> (\<exists>j < length (attempts s). job (fst (attempts s ! j)) = job r)"
    by (simp only: outstanding_iff)
  from o e d f w show ?thesis by blast
qed

theorem C3_unbounded_request_never_stops_witness:
  "crun [Submit unbounded_request, Dispatch 0 1 None, Finish 0 None True, CloseIn, DoneIn] cinit \<noteq> None
   \<and> unbounded_request \<in> set (submitted [Submit unbounded_request, Dispatch 0 1 None,
         Finish 0 None True, CloseIn, DoneIn])
   \<and> Count (Config unbounded_request) < 0
   \<and> outstanding unbounded_request (final (crun [Submit unbounded_request, Dispatch 0 1 None,
         Finish 0 None True, CloseIn, DoneIn] cinit)) \<noteq> []
   \<and> \<not> out_closed (final (crun [Submit unbounded_request, Dispatch 0 1 None,
         Finish 0 None True, CloseIn, DoneIn] cinit))
   \<and> 0 < wg (final (crun [Submit unbounded_request, Dispatch 0 1 None,
         Finish 0 None True, CloseIn, DoneIn] cinit))"
proof -
  let ?evs = "[Submit unbounded_request, Dispatch 0 1 None, Finish 0 None True, CloseIn, DoneIn]"
  have r: "crun ?evs cinit \<noteq> None" by (simp add: c_defs)
  then have h: "crun ?evs cinit = Some (final (crun ?evs cinit))"
    by (cases "crun ?evs cinit") (auto simp: final_def)
  have m: "unbounded_request \<in> set (submitted ?evs)" by simp
  have n: "Count (Config unbounded_request) < 0"
    by (simp add: unbounded_request_def example_request_def)
  from C3_unbounded_request_never_stops [OF h m n] r m n show ?thesis by blast
qed


text \<open>
  Claim C3 as stated fails. A request with Count = -1 is submitted, two attempts are
  dispatched and answered, the sink is closed and the loop has noticed: \<open>out\<close> cannot be
  closed, and a third attempt is dispatched and answered with \<open>out\<close> still open.
\<close>

theorem C3_attempts_go_on_after_close:
  "length (out (final (crun [Submit unbounded_request, Dispatch 0 1 None, Finish 0 None True,
       Dispatch 0 2 None, Finish 0 None True, CloseIn, DoneIn] cinit))) = 2
   \<and> crun [Submit unbounded_request, Dispatch 0 1 None, Finish 0 None True,
       Dispatch 0 2 None, Finish 0 None True, CloseIn, DoneIn, CloseOut] cinit = None
   \<and> length (out (final (crun [Submit unbounded_request, Dispatch 0 1 None, Finish 0 None True,
       Dispatch 0 2 None, Finish 0 None True, CloseIn, DoneIn,
       Dispatch 0 3 None, Finish 0 None True] cinit))) = 3
   \<and> \<not> out_closed (final (crun [Submit unbounded_request, Dispatch 0 1 None, Finish 0 None True,
       Dispatch 0 2 None, Finish 0 None True, CloseIn, DoneIn,
       Dispatch 0 3 None, Finish 0 None True] cinit))"
  by (simp add: c_defs final_def)

subsection \<open>Counting the Responses of a request\<close>

declare job_Sent [simp]

lemma Request_attempt [simp]: "Request (attempt recv seq err arrival coin) = recv"
  by (simp add: attempt_def build_response_def Let_def split: race.splits)

lemma sum_filter_remove_nth:
  assumes "i < length xs"
  shows "sum_list (map f (filter P xs)) =
         (if P (xs ! i) then f (xs ! i) else (0::int)) + sum_list (map f (filter P (remove_nth i xs)))"
proof -
  have "xs = take i xs @ xs ! i # drop (Suc i) xs" using assms by (rule id_take_nth_drop)
  then have "sum_list (map f (filter P xs)) =
     sum_list (map f (filter P (take i xs @ xs ! i # drop (Suc i) xs)))" by simp
  then show ?thesis by (simp add: remove_nth_def)
qed

lemma need_dispatch:
  "n \<le> 2 ^ 53 \<Longrightarrow> need_att n (r\<lparr>Sent := float64_incr (Sent r)\<rparr>) = need_pin n r"
  by (auto simp: need_att_def need_pin_def float64_incr_def)

lemma owed_eq:
  "owed r s =
     sum_list (map (need_pin (Count (Config r))) (filter (\<lambda>r'. job r' = job r) (pin_senders s)))
   + sum_list (map (need_att (Count (Config r)))
       (filter (\<lambda>r'. job r' = job r) (map fst (attempts s))))"
  by (simp add: owed_def)

lemma balance_submit:
  assumes n: "1 \<le> Count (Config r)"
    and st: "cstep (Submit r') s = Some s'"
  shows "int (length (responses_for r (out s'))) + owed r s'
       = int (length (responses_for r (out s))) + owed r s + due r [Submit r']"
proof (cases "Count (Config r') = 0")
  case True
  with st have "s' = s" by (auto split: if_splits)
  moreover have "job r' \<noteq> job r" using True n job_Config [of r' r] by auto
  ultimately show ?thesis by (simp add: due_def)
next
  case False
  with st have s': "s' = s\<lparr>wg := wg s + 1, pin_senders := pin_senders s @ [r']\<rparr>"
    by (auto split: if_splits)
  show ?thesis unfolding s' by (simp add: owed_eq due_def)
qed

lemma balance_dispatch:
  assumes n: "Count (Config r) \<le> 2 ^ 53"
    and st: "cstep (Dispatch i seq err) s = Some s'"
  shows "int (length (responses_for r (out s'))) + owed r s'
       = int (length (responses_for r (out s))) + owed r s + due r [Dispatch i seq err]"
proof -
  from st have i: "i < length (pin_senders s)" by (auto split: if_splits)
  let ?recv = "pin_senders s ! i"
  let ?recv' = "?recv\<lparr>Sent := float64_incr (Sent ?recv)\<rparr>"
  from st i have s': "s' = s\<lparr>pin_senders := remove_nth i (pin_senders s),
                             attempts := attempts s @ [(?recv', seq, err)]\<rparr>"
    by (auto simp: Let_def split: if_splits)
  have a: "need_att (Count (Config r)) ?recv' = need_pin (Count (Config r)) ?recv"
    using n by (rule need_dispatch)
  show ?thesis unfolding s'
    using sum_filter_remove_nth [OF i, of "need_pin (Count (Config r))" "\<lambda>r'. job r' = job r"]
    by (simp add: owed_eq due_def a)
qed

lemma finish_retire:
  assumes "j < length (attempts s)" "attempts s ! j = (recv, seq, err)" "\<not> out_closed s"
    "Count (Config recv) \<ge> 0 \<and> int (Sent recv) \<ge> Count (Config recv)"
  shows "cstep (Finish j arrival coin) s =
    Some (s\<lparr>attempts := remove_nth j (attempts s),
             out := out s @ [attempt recv seq err arrival coin], wg := wg s - 1\<rparr>)"
  using assms by (simp add: Let_def)

lemma finish_again:
  assumes "j < length (attempts s)" "attempts s ! j = (recv, seq, err)" "\<not> out_closed s"
    "\<not> (Count (Config recv) \<ge> 0 \<and> int (Sent recv) \<ge> Count (Config recv))"
  shows "cstep (Finish j arrival coin) s =
    Some (s\<lparr>attempts := remove_nth j (attempts s),
             out := out s @ [attempt recv seq err arrival coin],
             pin_senders := pin_senders s @ [recv]\<rparr>)"
  using assms by (auto simp: Let_def)

lemma map_fst_remove_nth: "map fst (remove_nth j xs) = remove_nth j (map fst xs)"
  by (simp add: remove_nth_def take_map drop_map)

lemma owed_fields:
  assumes "pin_senders s' = ps" "attempts s' = as"
  shows "owed r s' =
     sum_list (map (need_pin (Count (Config r))) (filter (\<lambda>r'. job r' = job r) ps))
   + sum_list (map (need_att (Count (Config r))) (filter (\<lambda>r'. job r' = job r) (map fst as)))"
  using assms by (simp add: owed_def)

lemma responses_snoc:
  "int (length (responses_for r (xs @ [attempt recv seq err arrival coin])))
     = int (length (responses_for r xs)) + (if job recv = job r then 1 else 0)"
  by (simp add: responses_for_def)

lemma balance_finish:
  assumes n: "1 \<le> Count (Config r)"
    and st: "cstep (Finish j arrival coin) s = Some s'"
  shows "int (length (responses_for r (out s'))) + owed r s'
       = int (length (responses_for r (out s))) + owed r s + due r [Finish j arrival coin]"
proof -
  from st have j: "j < length (attempts s)" and oc: "\<not> out_closed s"
    by (auto split: if_splits)
  then have j': "j < length (map fst (attempts s))" by simp
  obtain recv seq err where a: "attempts s ! j = (recv, seq, err)" by (cases "attempts s ! j")
  have f: "map fst (attempts s) ! j = recv" using j a by simp
  let ?N = "Count (Config r)"
  let ?P = "\<lambda>r'. job r' = job r"
  let ?A = "sum_list (map (need_pin ?N) (filter ?P (pin_senders s)))"
  let ?B = "sum_list (map (need_att ?N) (filter ?P (remove_nth j (map fst (attempts s)))))"
  let ?resp = "attempt recv seq err arrival coin"
  have d: "due r [Finish j arrival coin] = 0" by (simp add: due_def)
  have o: "owed r s = ?A + ((if job recv = job r then need_att ?N recv else 0) + ?B)"
    using sum_filter_remove_nth [OF j', of "need_att ?N" ?P]
    unfolding owed_eq f by (simp only:)
  show ?thesis
  proof (cases "Count (Config recv) \<ge> 0 \<and> int (Sent recv) \<ge> Count (Config recv)")
    case True
    from finish_retire [OF j a oc True, of arrival coin] st
    have s': "s' = s\<lparr>attempts := remove_nth j (attempts s), out := out s @ [?resp],
                       wg := wg s - 1\<rparr>"
      by simp
    have p: "pin_senders s' = pin_senders s" "attempts s' = remove_nth j (attempts s)"
      "out s' = out s @ [?resp]"
      unfolding s' by simp_all
    have o': "owed r s' = ?A + ?B"
      using owed_fields [OF p(1,2), of r] by (simp only: map_fst_remove_nth)
    have r': "int (length (responses_for r (out s')))
        = int (length (responses_for r (out s))) + (if job recv = job r then 1 else 0)"
      unfolding p(3) by (rule responses_snoc)
    have k: "job recv = job r \<Longrightarrow> need_att ?N recv = 1"
    proof -
      assume "job recv = job r"
      then have "Count (Config recv) = ?N" using job_Config [of recv r] by simp
      with True show ?thesis by (simp add: need_att_def)
    qed
    show ?thesis unfolding o o' r' d using k by (cases "job recv = job r") simp_all
  next
    case False
    from finish_again [OF j a oc False, of arrival coin] st
    have s': "s' = s\<lparr>attempts := remove_nth j (attempts s), out := out s @ [?resp],
                       pin_senders := pin_senders s @ [recv]\<rparr>"
      by simp
    have p: "pin_senders s' = pin_senders s @ [recv]" "attempts s' = remove_nth j (attempts s)"
      "out s' = out s @ [?resp]"
      unfolding s' by simp_all
    have o': "owed r s' = (?A + (if job recv = job r then need_pin ?N recv else 0)) + ?B"
      using owed_fields [OF p(1,2), of r] by (simp add: map_fst_remove_nth)
    have r': "int (length (responses_for r (out s')))
        = int (length (responses_for r (out s))) + (if job recv = job r then 1 else 0)"
      unfolding p(3) by (rule responses_snoc)
    have k: "job recv = job r \<Longrightarrow> need_att ?N recv = 1 + need_pin ?N recv"
    proof -
      assume "job recv = job r"
      then have "Count (Config recv) = ?N" using job_Config [of recv r] by simp
      with False n have "int (Sent recv) < ?N" by auto
      then show ?thesis by (simp add: need_att_def need_pin_def)
    qed
    show ?thesis unfolding o o' r' d using k by (cases "job recv = job r") simp_all
  qed
qed

lemma balance_step:
  assumes n: "1 \<le> Count (Config r)" "Count (Config r) \<le> 2 ^ 53"
    and st: "cstep e s = Some s'"
  shows "int (length (responses_for r (out s'))) + owed r s'
       = int (length (responses_for r (out s))) + owed r s + due r [e]"
proof (cases e)
  case (Submit r')
  then show ?thesis using balance_submit [OF n(1)] st by blast
next
  case (Dispatch i seq err)
  then show ?thesis using balance_dispatch [OF n(2)] st by blast
next
  case (Finish j arrival coin)
  then show ?thesis using balance_finish [OF n(1)] st by blast
next
  case CloseIn
  with st have "s' = s\<lparr>in_open := False, doneIn_pending := True\<rparr>" by (auto split: if_splits)
  then show ?thesis using CloseIn by (simp add: owed_eq due_def)
next
  case DoneIn
  with st have "s' = s\<lparr>doneIn_pending := False, waiting := True\<rparr>" by (auto split: if_splits)
  then show ?thesis using DoneIn by (simp add: owed_eq due_def)
next
  case CloseOut
  with st have "s' = s\<lparr>waiting := False, out_closed := True, done_pending := True\<rparr>"
    by (auto split: if_splits)
  then show ?thesis using CloseOut by (simp add: owed_eq due_def)
next
  case Done
  with st have "s' = s\<lparr>done_pending := False, returned := True\<rparr>" by (auto split: if_splits)
  then show ?thesis using Done by (simp add: owed_eq due_def)
qed

lemma due_Cons: "due r (e # es) = due r [e] + due r es"
  by (cases e) (simp_all add: due_def)

lemma balance_run:
  assumes n: "1 \<le> Count (Config r)" "Count (Config r) \<le> 2 ^ 53"
  shows "crun evs s = Some s' \<Longrightarrow>
     int (length (responses_for r (out s'))) + owed r s'
       = int (length (responses_for r (out s))) + owed r s + due r evs"
proof (induction evs arbitrary: s)
  case Nil
  then show ?case by (simp add: due_def)
next
  case (Cons e es)
  from Cons.prems obtain s1 where s1: "cstep e s = Some s1" "crun es s1 = Some s'"
    by (auto split: option.splits)
  from Cons.IH [OF s1(2)] balance_step [OF n s1(1)] due_Cons [of r e es]
  show ?case by simp
qed

lemma need_pin_pos: "0 < need_pin n r"
  by (simp add: need_pin_def)

lemma need_att_pos: "0 < need_att n r"
  by (simp add: need_att_def)

lemma sum_list_pos_nonempty:
  "(\<And>x. x \<in> set xs \<Longrightarrow> 0 < f x) \<Longrightarrow> 0 \<le> sum_list (map f xs) \<and> (sum_list (map f xs) = (0::int) \<longleftrightarrow> xs = [])"
proof (induction xs)
  case Nil
  then show ?case by simp
next
  case (Cons a xs)
  then have "0 < f a" "0 \<le> sum_list (map f xs)" by auto
  then show ?case by auto
qed

lemma owed_nonneg: "0 \<le> owed r s"
  unfolding owed_eq
  using sum_list_pos_nonempty [of _ "need_pin (Count (Config r))"]
        sum_list_pos_nonempty [of _ "need_att (Count (Config r))"]
  by (simp add: need_pin_pos need_att_pos)

lemma owed_zero: "outstanding r s = [] \<Longrightarrow> owed r s = 0"
  by (simp add: owed_eq outstanding_def)

lemma due_fresh:
  assumes "\<forall>r' \<in> set (submitted evs). job r' = job r \<longrightarrow> Sent r' = 0" "1 \<le> Count (Config r)"
  shows "due r evs = Count (Config r) * int (submissions r evs)"
  using assms(1)
proof (induction evs)
  case Nil
  then show ?case by (simp add: due_def submissions_def)
next
  case (Cons e es)
  then have ih: "due r es = Count (Config r) * int (submissions r es)" by (cases e) auto
  show ?case
  proof (cases e)
    case (Submit r')
    show ?thesis
    proof (cases "job r' = job r")
      case True
      with Cons.prems Submit have "Sent r' = 0" by simp
      with assms(2) have "need_pin (Count (Config r)) r' = Count (Config r)"
        by (simp add: need_pin_def)
      with True Submit ih show ?thesis
        by (simp add: due_def submissions_def algebra_simps)
    next
      case False
      with Submit ih show ?thesis by (simp add: due_def submissions_def)
    qed
  qed (use ih in \<open>simp_all add: due_def submissions_def\<close>)
qed

lemma cinit_balance: "int (length (responses_for r (out cinit))) + owed r cinit = 0"
  by (simp add: cinit_def owed_eq responses_for_def)

lemma responses_count:
  assumes "1 \<le> Count (Config r)" "Count (Config r) \<le> 2 ^ 53"
    and "crun evs cinit = Some s"
    and "\<forall>r' \<in> set (submitted evs). job r' = job r \<longrightarrow> Sent r' = 0"
  shows "int (length (responses_for r (out s))) + owed r s
           = Count (Config r) * int (submissions r evs)"
  using balance_run [OF assms(1,2,3)] due_fresh [OF assms(4,1)] cinit_balance [of r]
  by simp

lemma owed_pos: "outstanding r s \<noteq> [] \<Longrightarrow> 0 < owed r s"
proof -
  assume o: "outstanding r s \<noteq> []"
  let ?P = "\<lambda>r'. job r' = job r"
  let ?A = "sum_list (map (need_pin (Count (Config r))) (filter ?P (pin_senders s)))"
  let ?B = "sum_list (map (need_att (Count (Config r))) (filter ?P (map fst (attempts s))))"
  have a: "0 \<le> ?A \<and> (?A = 0 \<longleftrightarrow> filter ?P (pin_senders s) = [])"
    by (rule sum_list_pos_nonempty) (rule need_pin_pos)
  have b: "0 \<le> ?B \<and> (?B = 0 \<longleftrightarrow> filter ?P (map fst (attempts s)) = [])"
    by (rule sum_list_pos_nonempty) (rule need_att_pos)
  from o have "filter ?P (pin_senders s) \<noteq> [] \<or> filter ?P (map fst (attempts s)) \<noteq> []"
    by (simp add: outstanding_def)
  with a b have "0 < ?A + ?B" by linarith
  then show ?thesis by (simp only: owed_eq)
qed

lemma zero_step:
  assumes z: "Count (Config r) = 0" and o: "outstanding r s = []"
    and e: "responses_for r (out s) = []" and st: "cstep ev s = Some s'"
  shows "outstanding r s' = [] \<and> responses_for r (out s') = []"
proof -
  from o have np: "\<And>x. x \<in> set (pin_senders s) \<Longrightarrow> job x \<noteq> job r"
    and na: "\<And>x. x \<in> set (attempts s) \<Longrightarrow> job (fst x) \<noteq> job r"
    by (auto simp: outstanding_def filter_empty_conv)
  show ?thesis
  proof (cases ev)
    case (Submit r')
    show ?thesis
    proof (cases "Count (Config r') = 0")
      case True
      with st Submit have "s' = s" by (auto split: if_splits)
      with o e show ?thesis by simp
    next
      case False
      then have "job r' \<noteq> job r" using job_Config [of r' r] z by auto
      moreover from st Submit False
      have "s' = s\<lparr>wg := wg s + 1, pin_senders := pin_senders s @ [r']\<rparr>"
        by (auto split: if_splits)
      ultimately show ?thesis using o e by (simp add: outstanding_def)
    qed
  next
    case (Dispatch i seq err)
    with st have i: "i < length (pin_senders s)" and nr: "\<not> returned s"
      by (auto split: if_splits)
    from st Dispatch have s': "s' = s\<lparr>pin_senders := remove_nth i (pin_senders s),
             attempts := attempts s @
               [((pin_senders s ! i)\<lparr>Sent := float64_incr (Sent (pin_senders s ! i))\<rparr>, seq, err)]\<rparr>"
      using dispatch_enabled [OF i nr] by simp
    have 1: "job (pin_senders s ! i) \<noteq> job r" using np i by simp
    have 2: "\<And>x. x \<in> set (remove_nth i (pin_senders s)) \<Longrightarrow> job x \<noteq> job r"
      using np set_remove_nth [OF i] by auto
    show ?thesis unfolding s' using 1 2 na e
      by (auto simp: outstanding_def filter_empty_conv)
  next
    case (Finish j arrival coin)
    with st have j: "j < length (attempts s)" and oc: "\<not> out_closed s"
      by (auto split: if_splits)
    obtain recv seq err where a: "attempts s ! j = (recv, seq, err)" by (cases "attempts s ! j")
    have "attempts s ! j \<in> set (attempts s)" using j by (rule nth_mem)
    from na [OF this] have 1: "job recv \<noteq> job r" by (simp add: a)
    have 2: "\<And>x. x \<in> set (remove_nth j (attempts s)) \<Longrightarrow> job (fst x) \<noteq> job r"
      using na set_remove_nth [OF j] by auto
    let ?resp = "attempt recv seq err arrival coin"
    have "s' = s\<lparr>attempts := remove_nth j (attempts s), out := out s @ [?resp], wg := wg s - 1\<rparr>
       \<or> s' = s\<lparr>attempts := remove_nth j (attempts s), out := out s @ [?resp],
                 pin_senders := pin_senders s @ [recv]\<rparr>"
      using finish_retire [OF j a oc, of arrival coin] finish_again [OF j a oc, of arrival coin] st Finish
      by (cases "Count (Config recv) \<ge> 0 \<and> int (Sent recv) \<ge> Count (Config recv)") simp_all
    then show ?thesis
    proof
      assume s': "s' = s\<lparr>attempts := remove_nth j (attempts s), out := out s @ [?resp], wg := wg s - 1\<rparr>"
      show ?thesis unfolding s' using 1 2 np e
        by (auto simp: outstanding_def filter_empty_conv responses_for_def)
    next
      assume s': "s' = s\<lparr>attempts := remove_nth j (attempts s), out := out s @ [?resp],
                 pin_senders := pin_senders s @ [recv]\<rparr>"
      show ?thesis unfolding s' using 1 2 np e
        by (auto simp: outstanding_def filter_empty_conv responses_for_def)
    qed
  qed (use st o e in \<open>auto simp: outstanding_def split: if_splits\<close>)
qed

lemma zero_run:
  assumes z: "Count (Config r) = 0"
  shows "outstanding r s = [] \<Longrightarrow> responses_for r (out s) = [] \<Longrightarrow> crun evs s = Some s'
     \<Longrightarrow> outstanding r s' = [] \<and> responses_for r (out s') = []"
proof (induction evs arbitrary: s)
  case Nil
  then show ?case by simp
next
  case (Cons e es)
  from Cons.prems(3) obtain s1 where s1: "cstep e s = Some s1" "crun es s1 = Some s'"
    by (auto split: option.splits)
  from zero_step [OF z Cons.prems(1,2) s1(1)] Cons.IH [OF _ _ s1(2)] show ?case by blast
qed

lemma float64_incr_small: "int s < 2 ^ 53 \<Longrightarrow> float64_incr s = Suc s"
  by (simp add: float64_incr_def)

lemma solo_run:
  "pin_senders s = [r'] \<Longrightarrow> attempts s = [] \<Longrightarrow> \<not> out_closed s \<Longrightarrow> \<not> returned s \<Longrightarrow>
   int (Sent r') + int (length envs) = Count (Config r') \<Longrightarrow> envs \<noteq> [] \<Longrightarrow>
   Count (Config r') \<le> 2 ^ 53 \<Longrightarrow>
   \<exists>s'. crun (solo envs) s = Some s' \<and> pin_senders s' = [] \<and> attempts s' = []
        \<and> wg s' = wg s - 1 \<and> length (out s') = length (out s) + length envs"
proof (induction envs arbitrary: s r')
  case Nil
  then show ?case by simp
next
  case (Cons env rest)
  obtain seq err arrival coin where env: "env = (seq, err, arrival, coin)" by (cases env) auto
  let ?r = "r'\<lparr>Sent := float64_incr (Sent r')\<rparr>"
  from Cons.prems(5,7) have small: "int (Sent r') < 2 ^ 53" by simp
  then have sent: "Sent ?r = Suc (Sent r')" by (simp add: float64_incr_small)
  have cnt: "Count (Config ?r) = Count (Config r')" by simp
  let ?s1 = "s\<lparr>pin_senders := remove_nth 0 (pin_senders s),
               attempts := attempts s @ [(?r, seq, err)]\<rparr>"
  have d: "cstep (Dispatch 0 seq err) s = Some ?s1"
    using dispatch_enabled [of 0 s seq err] Cons.prems(1,4) by simp
  have s1: "pin_senders ?s1 = []" "attempts ?s1 = [(?r, seq, err)]" "\<not> out_closed ?s1"
    "\<not> returned ?s1" "wg ?s1 = wg s" "out ?s1 = out s"
    using Cons.prems(1-4) by (simp_all add: remove_nth_def)
  have j: "0 < length (attempts ?s1)" and a: "attempts ?s1 ! 0 = (?r, seq, err)"
    using s1(2) by simp_all
  let ?resp = "attempt ?r seq err arrival coin"
  show ?case
  proof (cases "rest = []")
    case True
    with Cons.prems(5) sent have "Count (Config ?r) \<ge> 0 \<and> int (Sent ?r) \<ge> Count (Config ?r)"
      by simp
    from finish_retire [OF j a s1(3) this, of arrival coin]
    have f: "cstep (Finish 0 arrival coin) ?s1 =
        Some (?s1\<lparr>attempts := remove_nth 0 (attempts ?s1), out := out ?s1 @ [?resp],
                   wg := wg ?s1 - 1\<rparr>)" .
    show ?thesis unfolding env True using d f s1
      by (simp add: remove_nth_def)
  next
    case False
    with Cons.prems(5) sent have "\<not> (Count (Config ?r) \<ge> 0 \<and> int (Sent ?r) \<ge> Count (Config ?r))"
      by (cases rest) auto
    from finish_again [OF j a s1(3) this, of arrival coin]
    have f: "cstep (Finish 0 arrival coin) ?s1 =
        Some (?s1\<lparr>attempts := remove_nth 0 (attempts ?s1), out := out ?s1 @ [?resp],
                   pin_senders := pin_senders ?s1 @ [?r]\<rparr>)" .
    let ?s2 = "?s1\<lparr>attempts := remove_nth 0 (attempts ?s1), out := out ?s1 @ [?resp],
                   pin_senders := pin_senders ?s1 @ [?r]\<rparr>"
    have s2: "pin_senders ?s2 = [?r]" "attempts ?s2 = []" "\<not> out_closed ?s2" "\<not> returned ?s2"
      "wg ?s2 = wg s" "length (out ?s2) = Suc (length (out s))"
      using s1 by (simp_all add: remove_nth_def)
    have "int (Sent ?r) + int (length rest) = Count (Config ?r)"
      using Cons.prems(5) sent by simp
    from Cons.IH [OF s2(1-4) this False] Cons.prems(7)
    obtain s' where s': "crun (solo rest) ?s2 = Some s'" "pin_senders s' = []" "attempts s' = []"
      "wg s' = wg ?s2 - 1" "length (out s') = length (out ?s2) + length rest"
      by auto
    have "crun (solo (env # rest)) s = Some s'"
      unfolding env using d f s'(1) by simp
    with s' s2(5,6) show ?thesis by simp
  qed
qed

lemma solo_from_cinit:
  assumes "1 \<le> Count (Config r)" "Count (Config r) \<le> 2 ^ 53" "Sent r = 0"
    "length envs = nat (Count (Config r))"
  shows "\<exists>s'. crun (Submit r # solo envs) cinit = Some s' \<and> pin_senders s' = []
     \<and> attempts s' = [] \<and> wg s' = 0 \<and> length (out s') = nat (Count (Config r))"
proof -
  let ?s0 = "cinit\<lparr>wg := 1, pin_senders := [r]\<rparr>"
  have sub: "cstep (Submit r) cinit = Some ?s0"
    using assms(1) by (simp add: cinit_def)
  have ne: "envs \<noteq> []" using assms(1,4) by auto
  have "int (Sent r) + int (length envs) = Count (Config r)" using assms(1,3,4) by simp
  from solo_run [of ?s0 r envs, OF _ _ _ _ this ne assms(2)]
  obtain s' where "crun (solo envs) ?s0 = Some s'" "pin_senders s' = []" "attempts s' = []"
    "wg s' = wg ?s0 - 1" "length (out s') = length (out ?s0) + length envs"
    by (auto simp: cinit_def)
  with sub assms(4) show ?thesis by (simp add: cinit_def)
qed

lemma submitted_solo: "submitted (solo envs) = []"
  by (induction envs rule: solo.induct) simp_all

lemma filter_all:
  assumes "length (filter P xs) = length xs"
  shows "filter P xs = xs"
proof -
  have "length (filter P xs) + length (filter (\<lambda>x. \<not> P x) xs) = length xs"
    by (rule sum_length_filter_compl)
  with assms have "filter (\<lambda>x. \<not> P x) xs = []" by simp
  then have "\<forall>x \<in> set xs. P x" by (simp add: filter_empty_conv)
  then show ?thesis by simp
qed

lemma count_as_nat:
  assumes "int n + w = c * int m" "1 \<le> c"
  shows "w = 0 \<Longrightarrow> n = nat c * m" and "0 < w \<Longrightarrow> n < nat c * m"
proof -
  have e: "int (nat c * m) = c * int m" using assms(2) by simp
  show "w = 0 \<Longrightarrow> n = nat c * m" using assms(1) e by linarith
  show "0 < w \<Longrightarrow> n < nat c * m" using assms(1) e by linarith
qed

text \<open>
  Claim C1, as the code has it. A request with Count = 0 is retired on submission: the state is as before
  (the wait group's unit is taken and given back, nothing waits on \<open>pin\<close>), and no
  Response of its job is ever emitted. For a job with Count = N from 1 up to \<open>2 ^ 53\<close>
  (up to where the \<open>float64\<close> sent counter is exact) whose requests are submitted with
  the sent counter at 0, as \<open>NewRequest\<close> makes them: however the attempts interleave,
  fewer than N Responses per submission have been emitted while a request of the job is
  still outstanding, and exactly N per submission once none is. And the attempts do
  come to that end: run one after the other, the N attempts of a submitted request
  give N Responses, all of them its own, and leave the wait group at zero.
\<close>

theorem C1_responses_equal_count:
  "(Count (Config r0) = 0 \<and> in_open s0 \<and> \<not> returned s0 \<longrightarrow> cstep (Submit r0) s0 = Some s0)
   \<and> (Count (Config r) = 0 \<and> crun evs cinit = Some s \<longrightarrow>
        responses_for r (out s) = [] \<and> outstanding r s = [])
   \<and> (1 \<le> Count (Config r) \<and> Count (Config r) \<le> 2 ^ 53 \<and> crun evs cinit = Some s
        \<and> (\<forall>r' \<in> set (submitted evs). job r' = job r \<longrightarrow> Sent r' = 0) \<longrightarrow>
        (outstanding r s = [] \<longrightarrow>
           length (responses_for r (out s)) = nat (Count (Config r)) * submissions r evs)
        \<and> (outstanding r s \<noteq> [] \<longrightarrow>
           length (responses_for r (out s)) < nat (Count (Config r)) * submissions r evs))
   \<and> (1 \<le> Count (Config r) \<and> Count (Config r) \<le> 2 ^ 53 \<and> Sent r = 0
        \<and> length envs = nat (Count (Config r)) \<longrightarrow>
        crun (Submit r # solo envs) cinit \<noteq> None
        \<and> length (out (final (crun (Submit r # solo envs) cinit))) = nat (Count (Config r))
        \<and> responses_for r (out (final (crun (Submit r # solo envs) cinit)))
            = out (final (crun (Submit r # solo envs) cinit))
        \<and> outstanding r (final (crun (Submit r # solo envs) cinit)) = []
        \<and> wg (final (crun (Submit r # solo envs) cinit)) = 0)"
proof -
  have A: "Count (Config r0) = 0 \<and> in_open s0 \<and> \<not> returned s0 \<longrightarrow> cstep (Submit r0) s0 = Some s0"
    by simp
  have B: "Count (Config r) = 0 \<and> crun evs cinit = Some s \<longrightarrow>
        responses_for r (out s) = [] \<and> outstanding r s = []"
    using zero_run [of r cinit evs s]
    by (auto simp: cinit_def outstanding_def responses_for_def)
  have C: "\<And>evs s. 1 \<le> Count (Config r) \<and> Count (Config r) \<le> 2 ^ 53 \<and> crun evs cinit = Some s
        \<and> (\<forall>r' \<in> set (submitted evs). job r' = job r \<longrightarrow> Sent r' = 0) \<longrightarrow>
        (outstanding r s = [] \<longrightarrow>
           length (responses_for r (out s)) = nat (Count (Config r)) * submissions r evs)
        \<and> (outstanding r s \<noteq> [] \<longrightarrow>
           length (responses_for r (out s)) < nat (Count (Config r)) * submissions r evs)"
  proof (intro impI, elim conjE)
    fix evs s
    assume h: "1 \<le> Count (Config r)" "Count (Config r) \<le> 2 ^ 53" "crun evs cinit = Some s"
      "\<forall>r' \<in> set (submitted evs). job r' = job r \<longrightarrow> Sent r' = 0"
    note eq = responses_count [OF h]
    show "(outstanding r s = [] \<longrightarrow>
           length (responses_for r (out s)) = nat (Count (Config r)) * submissions r evs)
        \<and> (outstanding r s \<noteq> [] \<longrightarrow>
           length (responses_for r (out s)) < nat (Count (Config r)) * submissions r evs)"
      using count_as_nat [OF eq h(1)] owed_zero [of r s] owed_pos [of r s] by blast
  qed
  have D: "1 \<le> Count (Config r) \<and> Count (Config r) \<le> 2 ^ 53 \<and> Sent r = 0
        \<and> length envs = nat (Count (Config r)) \<longrightarrow>
        crun (Submit r # solo envs) cinit \<noteq> None
        \<and> length (out (final (crun (Submit r # solo envs) cinit))) = nat (Count (Config r))
        \<and> responses_for r (out (final (crun (Submit r # solo envs) cinit)))
            = out (final (crun (Submit r # solo envs) cinit))
        \<and> outstanding r (final (crun (Submit r # solo envs) cinit)) = []
        \<and> wg (final (crun (Submit r # solo envs) cinit)) = 0"
  proof (intro impI, elim conjE)
    assume h: "1 \<le> Count (Config r)" "Count (Config r) \<le> 2 ^ 53" "Sent r = 0"
      "length envs = nat (Count (Config r))"
    let ?evs = "Submit r # solo envs"
    from solo_from_cinit [OF h] obtain s' where s': "crun ?evs cinit = Some s'"
      "pin_senders s' = []" "attempts s' = []" "wg s' = 0"
      "length (out s') = nat (Count (Config r))" by blast
    have fin: "final (crun ?evs cinit) = s'" by (simp only: s'(1) final_def option.case)
    have o: "outstanding r s' = []" by (simp add: outstanding_def s'(2,3))
    have fresh: "\<forall>r' \<in> set (submitted ?evs). job r' = job r \<longrightarrow> Sent r' = 0"
      by (simp add: submitted_solo h(3))
    have subs: "submissions r ?evs = 1" by (simp add: submissions_def submitted_solo)
    from C [of ?evs s'] h(1,2) s'(1) fresh o
    have "length (responses_for r (out s')) = nat (Count (Config r)) * submissions r ?evs"
      by blast
    then have "length (responses_for r (out s')) = length (out s')"
      by (simp only: subs s'(5) mult_1_right)
    then have "responses_for r (out s') = out s'"
      unfolding responses_for_def by (rule filter_all)
    with s' o show "crun ?evs cinit \<noteq> None
        \<and> length (out (final (crun ?evs cinit))) = nat (Count (Config r))
        \<and> responses_for r (out (final (crun ?evs cinit))) = out (final (crun ?evs cinit))
        \<and> outstanding r (final (crun ?evs cinit)) = []
        \<and> wg (final (crun ?evs cinit)) = 0"
      unfolding fin by simp
  qed
  from A B C [of evs s] D show ?thesis by blast
qed

theorem C1_responses_equal_count_witness:
  "Count (Config zero_request) = 0 \<and> in_open cinit \<and> \<not> returned cinit
   \<and> cstep (Submit zero_request) cinit = Some cinit
   \<and> crun [Submit zero_request] cinit = Some cinit
   \<and> responses_for zero_request (out cinit) = []
   \<and> 1 \<le> Count (Config fresh_request) \<and> Count (Config fresh_request) \<le> 2 ^ 53
   \<and> Sent fresh_request = 0 \<and> length example_envs = nat (Count (Config fresh_request))
   \<and> crun (Submit fresh_request # solo example_envs) cinit \<noteq> None
   \<and> length (out (final (crun (Submit fresh_request # solo example_envs) cinit))) = 3
   \<and> wg (final (crun (Submit fresh_request # solo example_envs) cinit)) = 0
   \<and> outstanding fresh_request (final (crun (Submit fresh_request # solo example_envs) cinit)) = []
   \<and> length (responses_for fresh_request
         (out (final (crun (Submit fresh_request # solo example_envs) cinit)))) = 3"
proof -
  let ?evs = "Submit fresh_request # solo example_envs"
  have z: "Count (Config zero_request) = 0 \<and> in_open cinit \<and> \<not> returned cinit"
    by (simp add: zero_request_def example_request_def cinit_def)
  have f: "1 \<le> Count (Config fresh_request) \<and> Count (Config fresh_request) \<le> 2 ^ 53
     \<and> Sent fresh_request = 0 \<and> length example_envs = nat (Count (Config fresh_request))"
    by (simp add: fresh_request_def example_request_def example_config_def example_envs_def)
  have n: "nat (Count (Config fresh_request)) = 3"
    by (simp add: fresh_request_def example_request_def example_config_def)
  from C1_responses_equal_count [of zero_request cinit zero_request "[Submit zero_request]" cinit
         example_envs] z
  have a: "cstep (Submit zero_request) cinit = Some cinit" by blast
  then have ra: "crun [Submit zero_request] cinit = Some cinit" by simp
  from C1_responses_equal_count [of zero_request cinit zero_request "[Submit zero_request]" cinit
         example_envs] z ra
  have b: "responses_for zero_request (out cinit) = []" by blast
  from C1_responses_equal_count [of zero_request cinit fresh_request "[]" cinit example_envs] f
  have d: "crun ?evs cinit \<noteq> None"
    "length (out (final (crun ?evs cinit))) = nat (Count (Config fresh_request))"
    "outstanding fresh_request (final (crun ?evs cinit)) = []"
    "wg (final (crun ?evs cinit)) = 0"
    by blast+
  from d(1) have run: "crun ?evs cinit = Some (final (crun ?evs cinit))"
    by (cases "crun ?evs cinit") (auto simp: final_def)
  have fresh: "\<forall>r' \<in> set (submitted ?evs). job r' = job fresh_request \<longrightarrow> Sent r' = 0"
    using f by (simp add: submitted_solo)
  have subs: "submissions fresh_request ?evs = 1"
    by (simp add: submissions_def submitted_solo)
  from C1_responses_equal_count [of zero_request cinit fresh_request ?evs
         "final (crun ?evs cinit)" example_envs] f run fresh d(3)
  have "length (responses_for fresh_request (out (final (crun ?evs cinit))))
          = nat (Count (Config fresh_request)) * submissions fresh_request ?evs"
    by blast
  then have c: "length (responses_for fresh_request (out (final (crun ?evs cinit)))) = 3"
    unfolding n subs by simp
  from z a ra b f d c show ?thesis unfolding n by blast
qed

lemma float64_incr_le: "s \<le> 2 ^ 53 \<Longrightarrow> float64_incr s \<le> 2 ^ 53"
  by (simp add: float64_incr_def)

lemma solo_unending:
  "pin_senders s = [r'] \<Longrightarrow> attempts s = [] \<Longrightarrow> \<not> out_closed s \<Longrightarrow> \<not> returned s \<Longrightarrow>
   Sent r' \<le> 2 ^ 53 \<Longrightarrow> 2 ^ 53 < Count (Config r') \<Longrightarrow>
   \<exists>s' r''. crun (solo envs) s = Some s' \<and> pin_senders s' = [r''] \<and> job r'' = job r'
        \<and> attempts s' = [] \<and> length (out s') = length (out s) + length envs"
proof (induction envs arbitrary: s r')
  case Nil
  then show ?case by simp
next
  case (Cons env rest)
  obtain seq err arrival coin where env: "env = (seq, err, arrival, coin)" by (cases env) auto
  let ?r = "r'\<lparr>Sent := float64_incr (Sent r')\<rparr>"
  have "float64_incr (Sent r') \<le> 2 ^ 53" using Cons.prems(5) by (rule float64_incr_le)
  then have sent: "Sent ?r \<le> 2 ^ 53" by simp
  have cnt: "2 ^ 53 < Count (Config ?r)" using Cons.prems(6) by simp
  let ?s1 = "s\<lparr>pin_senders := remove_nth 0 (pin_senders s),
               attempts := attempts s @ [(?r, seq, err)]\<rparr>"
  have d: "cstep (Dispatch 0 seq err) s = Some ?s1"
    using dispatch_enabled [of 0 s seq err] Cons.prems(1,4) by simp
  have s1: "pin_senders ?s1 = []" "attempts ?s1 = [(?r, seq, err)]" "\<not> out_closed ?s1"
    "\<not> returned ?s1" "out ?s1 = out s"
    using Cons.prems(1-4) by (simp_all add: remove_nth_def)
  have j: "0 < length (attempts ?s1)" and a: "attempts ?s1 ! 0 = (?r, seq, err)"
    using s1(2) by simp_all
  let ?resp = "attempt ?r seq err arrival coin"
  have "int (Sent ?r) \<le> int (2 ^ 53)" using sent by (simp only: of_nat_le_iff)
  then have "int (Sent ?r) \<le> 2 ^ 53" by simp
  with cnt have "\<not> (Count (Config ?r) \<ge> 0 \<and> int (Sent ?r) \<ge> Count (Config ?r))"
    by linarith
  from finish_again [OF j a s1(3) this, of arrival coin]
  have f: "cstep (Finish 0 arrival coin) ?s1 =
      Some (?s1\<lparr>attempts := remove_nth 0 (attempts ?s1), out := out ?s1 @ [?resp],
                 pin_senders := pin_senders ?s1 @ [?r]\<rparr>)" .
  let ?s2 = "?s1\<lparr>attempts := remove_nth 0 (attempts ?s1), out := out ?s1 @ [?resp],
                 pin_senders := pin_senders ?s1 @ [?r]\<rparr>"
  have s2: "pin_senders ?s2 = [?r]" "attempts ?s2 = []" "\<not> out_closed ?s2" "\<not> returned ?s2"
    "length (out ?s2) = Suc (length (out s))"
    using s1 by (simp_all add: remove_nth_def)
  from Cons.IH [OF s2(1-4) sent cnt]
  obtain s' r'' where s': "crun (solo rest) ?s2 = Some s'" "pin_senders s' = [r'']"
    "job r'' = job ?r" "attempts s' = []" "length (out s') = length (out ?s2) + length rest"
    by blast
  have "crun (solo (env # rest)) s = Some s'"
    unfolding env using d f s'(1) by simp
  with s' s2(5) show ?case by simp
qed

text \<open>
  Claim C1 as stated fails, since the number of attempts is counted from the sent
  counter the request comes with. A request with Count = 3 that is submitted with its
  sent counter at 5 (as it is in the last Response of an earlier run) is retired after
  one Response. And a request with Count = \<open>2 ^ 53 + 1\<close>, submitted with its counter at
  0, is still outstanding after \<open>2 ^ 53 + 2\<close> Responses: its counter stops at \<open>2 ^ 53\<close>.
\<close>

theorem C1_not_for_every_request:
  "Count (Config used_request) = 3 \<and> Sent used_request = 5
   \<and> length (responses_for used_request (out (final (crun
        [Submit used_request, Dispatch 0 1 None, Finish 0 None True] cinit)))) = 1
   \<and> outstanding used_request (final (crun
        [Submit used_request, Dispatch 0 1 None, Finish 0 None True] cinit)) = []
   \<and> wg (final (crun [Submit used_request, Dispatch 0 1 None, Finish 0 None True] cinit)) = 0
   \<and> Count (Config big_request) = 2 ^ 53 + 1 \<and> Sent big_request = 0
   \<and> length (out (final (crun
        (Submit big_request # solo (replicate (2 ^ 53 + 2) (1, None, None, True))) cinit)))
       = 2 ^ 53 + 2
   \<and> outstanding big_request (final (crun
        (Submit big_request # solo (replicate (2 ^ 53 + 2) (1, None, None, True))) cinit)) \<noteq> []"
proof -
  have u: "Count (Config used_request) = 3 \<and> Sent used_request = 5
   \<and> length (responses_for used_request (out (final (crun
        [Submit used_request, Dispatch 0 1 None, Finish 0 None True] cinit)))) = 1
   \<and> outstanding used_request (final (crun
        [Submit used_request, Dispatch 0 1 None, Finish 0 None True] cinit)) = []
   \<and> wg (final (crun [Submit used_request, Dispatch 0 1 None, Finish 0 None True] cinit)) = 0"
    by (simp add: used_request_def example_request_def example_config_def cinit_def
          float64_incr_def remove_nth_def final_def outstanding_def responses_for_def
          job_def Let_def)
  have b: "Count (Config big_request) = 2 ^ 53 + 1 \<and> Sent big_request = 0"
    by (simp add: big_request_def example_request_def)
  let ?envs = "replicate (2 ^ 53 + 2) (1::int, None::error, None::(duration \<times> rawResponse) option, True)"
  let ?s0 = "cinit\<lparr>wg := 1, pin_senders := [big_request]\<rparr>"
  have sub: "cstep (Submit big_request) cinit = Some ?s0"
    using b by (simp add: cinit_def)
  have "\<exists>s' r''. crun (solo ?envs) ?s0 = Some s' \<and> pin_senders s' = [r''] \<and> job r'' = job big_request
        \<and> attempts s' = [] \<and> length (out s') = length (out ?s0) + length ?envs"
    by (rule solo_unending) (use b in \<open>simp_all add: cinit_def\<close>)
  then obtain s' r'' where s': "crun (solo ?envs) ?s0 = Some s'" "pin_senders s' = [r'']"
    "job r'' = job big_request" "length (out s') = length (out ?s0) + length ?envs"
    by blast
  have run: "crun (Submit big_request # solo ?envs) cinit = Some s'"
    using sub s'(1) by simp
  have "length (out s') = 2 ^ 53 + 2" using s'(4) by (simp add: cinit_def)
  moreover have "outstanding big_request s' \<noteq> []"
    using s'(2,3) by (simp add: outstanding_def)
  ultimately show ?thesis using u b unfolding run final_def by simp
qed

end
